theory Spec2Isabelle
  imports Main "HOL-Library.Sublist" "HOL-Library.Multiset"
begin

section \<open>The background service: data model\<close>

text \<open>
  The repository holds two variants of the background service worker:
  \<^verbatim>\<open>scripts/background.js\<close> (promise based, functions named as in the source) and a
  callback based rewrite (functions here suffixed \<open>_cb\<close>). Both are embedded.

  A JavaScript string is modelled as a \<open>string\<close>; one \<open>char\<close> stands for one code unit
  (the code units below 256). A property that may be \<^verbatim>\<open>undefined\<close> is an \<open>option\<close>.
\<close>

record save_data =
  id_s :: string
  summary :: string
  platform :: "string option"
  url :: "string option"
  timestamp :: "string option"
  preview :: string

record settings =
  apiProvider :: "string option"
  apiKey :: "string option"

text \<open>\<^verbatim>\<open>chrome.storage.local\<close>: the two named records; \<open>None\<close> is a key never written.\<close>

record store =
  settings_rec :: "settings option"
  saves :: "save_data list option"

text \<open>The message of a summarize request: the fields \<^verbatim>\<open>handleSummarize\<close> reads.\<close>

record message =
  conversation :: string
  msg_platform :: "string option"
  msg_url :: "string option"
  msg_timestamp :: "string option"

text \<open>
  The text of a failure response. The message of an exception raised by the engine itself
  (a \<^verbatim>\<open>TypeError\<close> on a property of \<^verbatim>\<open>undefined\<close>, a \<^verbatim>\<open>SyntaxError\<close> of the JSON parser)
  is engine defined and kept abstract.
\<close>

datatype error_text = Text string | EngineTypeError | EngineSyntaxError

datatype payload = NoData | SaveData save_data | Saves "save_data list"
  | Settings settings | HasSaved bool

datatype response = Success payload | Failure error_text

text \<open>
  What the provider's HTTP exchange delivers, reduced to what the code reads from it:
  \<^item> \<open>err_lookup\<close>: the evaluation of \<^verbatim>\<open>body.error.message\<close> on an error body: it raises
    (the body is \<^verbatim>\<open>null\<close>), is falsy, or is a message;
  \<^item> \<open>content_lookup\<close>: the evaluation of \<^verbatim>\<open>data.choices[0].message.content\<close> (OpenAI) or
    \<^verbatim>\<open>data.candidates[0].content.parts[0].text\<close> (Gemini): it raises on a missing path,
    yields a value that is no string, or yields the text.
\<close>

datatype err_lookup = ErrRaises | ErrFalsy | ErrMessage string
datatype content_lookup = PathRaises | NotAString | Content string
datatype json_body = NotJson | Json err_lookup content_lookup

datatype fetch_outcome =
    Rejected string
  | Response (ok: bool) (status: nat) (body: json_body)

text \<open>
  Everything a handler obtains from outside the program during one request:
  \<^verbatim>\<open>chrome.runtime.lastError\<close> after each storage call, the outcome of \<^verbatim>\<open>fetch\<close>, and the
  values of \<^verbatim>\<open>generateId()\<close> and \<^verbatim>\<open>new Date().toISOString()\<close>.
\<close>

record env =
  lastError_get_settings :: "string option"
  lastError_get_saves :: "string option"
  lastError_set_saves :: "string option"
  fetch_result :: fetch_outcome
  generateId :: string
  now_iso :: string

text \<open>The state a request runs in: the store and the log of provider calls issued so far.\<close>

datatype provider_call = OpenAICall string string | GeminiCall string string

record state =
  storage :: store
  calls :: "provider_call list"

section \<open>The background service: operations\<close>

text \<open>\<^verbatim>\<open>result.saves || []\<close>\<close>

definition saves_or_empty :: "store \<Rightarrow> save_data list" where
  "saves_or_empty st = (case saves st of None \<Rightarrow> [] | Some xs \<Rightarrow> xs)"

text \<open>\<^verbatim>\<open>String.prototype.substring(0, n)\<close> for a natural \<open>n\<close>.\<close>

definition substring0 :: "string \<Rightarrow> nat \<Rightarrow> string" where
  "substring0 s n = take n s"

text \<open>Decimal rendering of a status code, as string concatenation with a number does.\<close>

fun digit_char :: "nat \<Rightarrow> char" where
  "digit_char n = ''0123456789'' ! n"

fun show_nat :: "nat \<Rightarrow> string" where
  "show_nat n = (if n < 10 then [digit_char n] else show_nat (n div 10) @ [digit_char (n mod 10)])"

subsection \<open>saveSummary: the bounded insert\<close>

text \<open>
  \<^verbatim>\<open>saveSummary\<close> is a read (the callback of \<^verbatim>\<open>storage.local.get\<close>) followed by a write
  (\<^verbatim>\<open>storage.local.set\<close>). The two halves are separate definitions, since other callbacks may
  run between them. A failed write leaves the store as it was.
\<close>

definition saveSummary_read :: "env \<Rightarrow> store \<Rightarrow> error_text + save_data list" where
  "saveSummary_read e st =
     (case lastError_get_saves e of
        Some m \<Rightarrow> Inl (Text m)
      | None \<Rightarrow> Inr (saves_or_empty st))"

text \<open>\<^verbatim>\<open>saves.unshift(saveData); trimmedSaves = saves.slice(0, 20)\<close>\<close>

definition saveSummary_write :: "env \<Rightarrow> save_data \<Rightarrow> save_data list \<Rightarrow> store \<Rightarrow> (error_text + unit) \<times> store" where
  "saveSummary_write e saveData svs st =
     (let unshifted = saveData # svs;
          trimmedSaves = take 20 unshifted
      in case lastError_set_saves e of
           Some m \<Rightarrow> (Inl (Text m), st)
         | None \<Rightarrow> (Inr (), st\<lparr>saves := Some trimmedSaves\<rparr>))"

definition saveSummary :: "env \<Rightarrow> save_data \<Rightarrow> store \<Rightarrow> (error_text + unit) \<times> store" where
  "saveSummary e saveData st =
     (case saveSummary_read e st of
        Inl err \<Rightarrow> (Inl err, st)
      | Inr svs \<Rightarrow> saveSummary_write e saveData svs st)"

text \<open>The callback variant: \<^verbatim>\<open>if (saves.length > 20) saves = saves.slice(0, 20)\<close>.\<close>

definition saveSummary_write_cb :: "env \<Rightarrow> save_data \<Rightarrow> save_data list \<Rightarrow> store \<Rightarrow> (error_text + unit) \<times> store" where
  "saveSummary_write_cb e saveData svs st =
     (let unshifted = saveData # svs;
          svs' = (if length unshifted > 20 then take 20 unshifted else unshifted)
      in case lastError_set_saves e of
           Some m \<Rightarrow> (Inl (Text m), st)
         | None \<Rightarrow> (Inr (), st\<lparr>saves := Some svs'\<rparr>))"

definition saveSummary_cb :: "env \<Rightarrow> save_data \<Rightarrow> store \<Rightarrow> (error_text + unit) \<times> store" where
  "saveSummary_cb e saveData st =
     (case saveSummary_read e st of
        Inl err \<Rightarrow> (Inl err, st)
      | Inr svs \<Rightarrow> saveSummary_write_cb e saveData svs st)"

text \<open>A run of inserts, each with its own environment, in order.\<close>

fun insert_all :: "(env \<times> save_data) list \<Rightarrow> store \<Rightarrow> store" where
  "insert_all [] st = st"
| "insert_all ((e, d) # rest) st = insert_all rest (snd (saveSummary e d st))"

fun insert_all_cb :: "(env \<times> save_data) list \<Rightarrow> store \<Rightarrow> store" where
  "insert_all_cb [] st = st"
| "insert_all_cb ((e, d) # rest) st = insert_all_cb rest (snd (saveSummary_cb e d st))"

text \<open>An environment in which no storage call reports \<^verbatim>\<open>lastError\<close>.\<close>

definition storage_ok :: "env \<Rightarrow> bool" where
  "storage_ok e \<longleftrightarrow> lastError_get_settings e = None \<and> lastError_get_saves e = None
     \<and> lastError_set_saves e = None"

subsection \<open>deleteSave\<close>

text \<open>
  \<^verbatim>\<open>scripts/background.js\<close>: the promise rejects on \<^verbatim>\<open>lastError\<close>; the listener's
  \<^verbatim>\<open>catch\<close> turns the rejection into a failure response with the error's message.
\<close>

definition deleteSave :: "env \<Rightarrow> string \<Rightarrow> store \<Rightarrow> response \<times> store" where
  "deleteSave e i st =
     (case lastError_get_saves e of
        Some m \<Rightarrow> (Failure (Text m), st)
      | None \<Rightarrow>
          (let svs = saves_or_empty st;
               filteredSaves = filter (\<lambda>save. id_s save \<noteq> i) svs
           in case lastError_set_saves e of
                Some m \<Rightarrow> (Failure (Text m), st)
              | None \<Rightarrow> (Success NoData, st\<lparr>saves := Some filteredSaves\<rparr>)))"

text \<open>The callback variant builds \<^verbatim>\<open>filtered\<close> with a loop that pushes every other entry.\<close>

fun filtered_loop :: "save_data list \<Rightarrow> string \<Rightarrow> save_data list \<Rightarrow> save_data list" where
  "filtered_loop [] i filtered = filtered"
| "filtered_loop (s # rest) i filtered =
     filtered_loop rest i (if id_s s \<noteq> i then filtered @ [s] else filtered)"

definition deleteSave_cb :: "env \<Rightarrow> string \<Rightarrow> store \<Rightarrow> response \<times> store" where
  "deleteSave_cb e i st =
     (case lastError_get_saves e of
        Some m \<Rightarrow> (Failure (Text m), st)
      | None \<Rightarrow>
          (let svs = saves_or_empty st;
               filtered = filtered_loop svs i []
           in case lastError_set_saves e of
                Some m \<Rightarrow> (Failure (Text m), st)
              | None \<Rightarrow> (Success NoData, st\<lparr>saves := Some filtered\<rparr>)))"

subsection \<open>Sample data\<close>

text \<open>A store after installation, an environment without failures and numbered summaries.\<close>

definition installed_store :: store where
  "installed_store = \<lparr>settings_rec = Some \<lparr>apiProvider = Some ''openai'', apiKey = Some []\<rparr>,
     saves = Some []\<rparr>"

definition quiet_env :: env where
  "quiet_env = \<lparr>lastError_get_settings = None, lastError_get_saves = None,
     lastError_set_saves = None,
     fetch_result = Response True 200 (Json ErrFalsy (Content ''SYSTEM HANDOFF: todo app'')),
     generateId = ''m1abc'', now_iso = ''2026-02-01T00:00:00.000Z''\<rparr>"

definition sample_save :: "nat \<Rightarrow> save_data" where
  "sample_save n = \<lparr>id_s = CHR ''S'' # show_nat n, summary = ''SYSTEM HANDOFF: '' @ show_nat n,
     platform = Some ''ChatGPT'', url = Some ''https://chatgpt.com/'', timestamp = None,
     preview = ''SYSTEM HANDOFF: '' @ show_nat n\<rparr>"

definition two_saves :: store where
  "two_saves = installed_store\<lparr>saves := Some [sample_save 2, sample_save 1]\<rparr>"

subsection \<open>getSettings and the provider calls\<close>

text \<open>\<^verbatim>\<open>result.settings || {}\<close>\<close>

definition settings_or_empty :: "store \<Rightarrow> settings" where
  "settings_or_empty st =
     (case settings_rec st of None \<Rightarrow> \<lparr>apiProvider = None, apiKey = None\<rparr> | Some x \<Rightarrow> x)"

text \<open>Truthiness of a string property: \<^verbatim>\<open>undefined\<close> and the empty string are falsy.\<close>

definition truthy :: "string option \<Rightarrow> bool" where
  "truthy v = (case v of None \<Rightarrow> False | Some x \<Rightarrow> x \<noteq> [])"

definition getSettings :: "env \<Rightarrow> store \<Rightarrow> response" where
  "getSettings e st =
     (case lastError_get_settings e of
        Some m \<Rightarrow> Failure (Text m)
      | None \<Rightarrow> Success (Settings (settings_or_empty st)))"

text \<open>
  \<^verbatim>\<open>callOpenAI\<close> and \<^verbatim>\<open>callGemini\<close> differ in the request, the path read from the answer and
  the label of the status message; \<open>api_call\<close> is their common shape. A rejected \<^verbatim>\<open>fetch\<close>
  throws its error; a response that is not \<^verbatim>\<open>ok\<close> throws the body's error message when
  that is truthy (a body that is not JSON counts as \<^verbatim>\<open>{}\<close>), else the status message; an
  \<^verbatim>\<open>ok\<close> response is parsed and the text path is read. The result \<open>Inr None\<close> is a value
  that is not a string.
\<close>

definition api_call :: "string \<Rightarrow> fetch_outcome \<Rightarrow> error_text + string option" where
  "api_call label r =
     (case r of
        Rejected m \<Rightarrow> Inl (Text m)
      | Response is_ok st b \<Rightarrow>
          if \<not> is_ok then
            (case (case b of NotJson \<Rightarrow> ErrFalsy | Json el cl \<Rightarrow> el) of
               ErrRaises \<Rightarrow> Inl EngineTypeError
             | ErrFalsy \<Rightarrow> Inl (Text (label @ '' API error: '' @ show_nat st))
             | ErrMessage m \<Rightarrow>
                 if m \<noteq> [] then Inl (Text m)
                 else Inl (Text (label @ '' API error: '' @ show_nat st)))
          else
            (case b of
               NotJson \<Rightarrow> Inl EngineSyntaxError
             | Json el cl \<Rightarrow>
                 (case cl of
                    PathRaises \<Rightarrow> Inl EngineTypeError
                  | NotAString \<Rightarrow> Inr None
                  | Content s \<Rightarrow> Inr (Some s))))"

definition callOpenAI :: "fetch_outcome \<Rightarrow> error_text + string option" where
  "callOpenAI r = api_call ''OpenAI'' r"

definition callGemini :: "fetch_outcome \<Rightarrow> error_text + string option" where
  "callGemini r = api_call ''Gemini'' r"

subsection \<open>handleSummarize, promise variant\<close>

definition not_configured :: string where
  "not_configured = ''API key not configured. Please open the extension popup and add your API key.''"

text \<open>
  The part of \<^verbatim>\<open>handleSummarize\<close> inside \<^verbatim>\<open>try\<close> after the provider call returned:
  \<^verbatim>\<open>summary.substring\<close> raises a \<^verbatim>\<open>TypeError\<close> on a value that is not a string; a rejected
  \<^verbatim>\<open>saveSummary\<close> is caught like every other exception.
\<close>

definition finish_summarize :: "env \<Rightarrow> message \<Rightarrow> error_text + string option \<Rightarrow> state \<Rightarrow> response \<times> state" where
  "finish_summarize e msg r s =
     (case r of
        Inl err \<Rightarrow> (Failure err, s)
      | Inr None \<Rightarrow> (Failure EngineTypeError, s)
      | Inr (Some summ) \<Rightarrow>
          (let saveData = \<lparr>id_s = generateId e, summary = summ, platform = msg_platform msg,
                 url = msg_url msg, timestamp = msg_timestamp msg,
                 preview = substring0 summ 100 @ ''...''\<rparr>
           in case saveSummary e saveData (storage s) of
                (Inl err, st') \<Rightarrow> (Failure err, s\<lparr>storage := st'\<rparr>)
              | (Inr u, st') \<Rightarrow> (Success (SaveData saveData), s\<lparr>storage := st'\<rparr>)))"

definition handleSummarize :: "env \<Rightarrow> message \<Rightarrow> state \<Rightarrow> response \<times> state" where
  "handleSummarize e msg s =
     (case getSettings e (storage s) of
        Success (Settings sd) \<Rightarrow>
          (if \<not> truthy (apiKey sd) then (Failure (Text not_configured), s)
           else
             (let k = the (apiKey sd) in
              if apiProvider sd = Some ''openai'' then
                finish_summarize e msg (callOpenAI (fetch_result e))
                  (s\<lparr>calls := calls s @ [OpenAICall k (conversation msg)]\<rparr>)
              else if apiProvider sd = Some ''gemini'' then
                finish_summarize e msg (callGemini (fetch_result e))
                  (s\<lparr>calls := calls s @ [GeminiCall k (conversation msg)]\<rparr>)
              else (Failure (Text ''Invalid API provider''), s)))
      | _ \<Rightarrow> (Failure (Text not_configured), s))"

subsection \<open>handleSummarize, callback variant\<close>

definition not_configured_cb :: string where
  "not_configured_cb = ''API key not configured. Open the SessionLink popup and add your API key.''"

text \<open>\<^verbatim>\<open>x || d\<close> on a string property.\<close>

definition or_default :: "string option \<Rightarrow> string \<Rightarrow> string" where
  "or_default v d = (if truthy v then the v else d)"

text \<open>
  \<^verbatim>\<open>err.message || String(err)\<close> in the \<^verbatim>\<open>catch\<close> handler: \<^verbatim>\<open>fetch\<close> rejects with a
  \<^verbatim>\<open>TypeError\<close>, whose string form with an empty message is its name; the messages of the
  other errors are not empty.
\<close>

definition catch_text :: "fetch_outcome \<Rightarrow> error_text \<Rightarrow> error_text" where
  "catch_text r err =
     (case r of
        Rejected m \<Rightarrow> (if m = [] then Text ''TypeError'' else err)
      | _ \<Rightarrow> err)"

text \<open>
  The callback of \<^verbatim>\<open>saveSummary\<close> receives the message of \<^verbatim>\<open>lastError\<close> and tests it with
  \<^verbatim>\<open>if (err)\<close>: an empty message counts as no error.
\<close>

definition finish_summarize_cb :: "env \<Rightarrow> message \<Rightarrow> error_text + string option \<Rightarrow> state \<Rightarrow> response \<times> state" where
  "finish_summarize_cb e msg r s =
     (case r of
        Inl err \<Rightarrow> (Failure (catch_text (fetch_result e) err), s)
      | Inr None \<Rightarrow> (Failure EngineTypeError, s)
      | Inr (Some summ) \<Rightarrow>
          (let saveData = \<lparr>id_s = generateId e, summary = summ,
                 platform = Some (or_default (msg_platform msg) ''Unknown''),
                 url = Some (or_default (msg_url msg) []),
                 timestamp = Some (or_default (msg_timestamp msg) (now_iso e)),
                 preview = substring0 summ 120\<rparr>
           in case saveSummary_cb e saveData (storage s) of
                (Inl (Text err), st') \<Rightarrow>
                  (if err \<noteq> []
                   then Failure (Text (''Saved summary but storage failed: '' @ err))
                   else Success (SaveData saveData), s\<lparr>storage := st'\<rparr>)
              | (Inl err, st') \<Rightarrow> (Failure err, s\<lparr>storage := st'\<rparr>)
              | (Inr u, st') \<Rightarrow> (Success (SaveData saveData), s\<lparr>storage := st'\<rparr>)))"

definition handleSummarize_cb :: "env \<Rightarrow> message \<Rightarrow> state \<Rightarrow> response \<times> state" where
  "handleSummarize_cb e msg s =
     (case lastError_get_settings e of
        Some m \<Rightarrow> (Failure (Text m), s)
      | None \<Rightarrow>
          (let sd = settings_or_empty (storage s) in
           if \<not> truthy (apiKey sd) then (Failure (Text not_configured_cb), s)
           else
             (let provider = or_default (apiProvider sd) ''openai'';
                  k = the (apiKey sd)
              in
              if provider = ''openai'' then
                finish_summarize_cb e msg (callOpenAI (fetch_result e))
                  (s\<lparr>calls := calls s @ [OpenAICall k (conversation msg)]\<rparr>)
              else if provider = ''gemini'' then
                finish_summarize_cb e msg (callGemini (fetch_result e))
                  (s\<lparr>calls := calls s @ [GeminiCall k (conversation msg)]\<rparr>)
              else (Failure (Text (''Invalid API provider: '' @ provider)), s))))"

text \<open>The provider call did not deliver a summary text: the network failed, the status is not
  a success, or the answer is malformed.\<close>

definition provider_failed :: "fetch_outcome \<Rightarrow> bool" where
  "provider_failed r =
     (case r of
        Rejected m \<Rightarrow> True
      | Response is_ok st b \<Rightarrow>
          \<not> is_ok \<or> (case b of NotJson \<Rightarrow> True
                     | Json el cl \<Rightarrow> (case cl of Content t \<Rightarrow> False | _ \<Rightarrow> True)))"

definition is_failure :: "response \<Rightarrow> bool" where
  "is_failure r = (case r of Failure err \<Rightarrow> True | Success p \<Rightarrow> False)"

subsection \<open>Sample requests\<close>

definition sample_message :: message where
  "sample_message = \<lparr>conversation = ''USER: build a todo app'',
     msg_platform = Some ''ChatGPT'', msg_url = Some ''https://chatgpt.com/c/1'',
     msg_timestamp = Some ''2026-02-01T00:00:00.000Z''\<rparr>"

definition keyed_state :: state where
  "keyed_state = \<lparr>storage = \<lparr>settings_rec = Some \<lparr>apiProvider = Some ''openai'',
       apiKey = Some ''sk-test''\<rparr>, saves = Some []\<rparr>, calls = []\<rparr>"

definition unkeyed_state :: state where
  "unkeyed_state = \<lparr>storage = installed_store, calls = []\<rparr>"

definition failing_env :: env where
  "failing_env = quiet_env\<lparr>fetch_result := Response False 401 (Json (ErrMessage ''Incorrect API key'') PathRaises)\<rparr>"

text \<open>The summaries the two variants build for the sample request.\<close>

definition sample_result_cb :: save_data where
  "sample_result_cb = \<lparr>id_s = ''m1abc'', summary = ''SYSTEM HANDOFF: todo app'', platform = Some ''ChatGPT'',
      url = Some ''https://chatgpt.com/c/1'', timestamp = Some ''2026-02-01T00:00:00.000Z'',
      preview = ''SYSTEM HANDOFF: todo app''\<rparr>"

definition sample_result :: save_data where
  "sample_result = \<lparr>id_s = ''m1abc'', summary = ''SYSTEM HANDOFF: todo app'', platform = Some ''ChatGPT'',
      url = Some ''https://chatgpt.com/c/1'', timestamp = Some ''2026-02-01T00:00:00.000Z'',
      preview = ''SYSTEM HANDOFF: todo app...''\<rparr>"

subsection \<open>Inserts whose callbacks interleave\<close>

text \<open>
  Neither variant queues or locks the insert: \<^verbatim>\<open>saveSummary\<close> issues \<^verbatim>\<open>storage.local.get\<close>,
  and its callback issues \<^verbatim>\<open>storage.local.set\<close>. The event loop may run the callbacks of
  another request between the two. An insert in progress is a task: it waits for its read,
  then holds the list it has read, then is done with the outcome of \<^verbatim>\<open>saveSummary\<close>. A
  schedule names, step by step, the task whose next callback runs. The write is a parameter,
  so that both variants are covered.
\<close>

datatype task = Pending save_data | HasRead save_data "save_data list" | Done "error_text + unit"

type_synonym writer = "env \<Rightarrow> save_data \<Rightarrow> save_data list \<Rightarrow> store \<Rightarrow> (error_text + unit) \<times> store"

fun step :: "writer \<Rightarrow> env \<Rightarrow> task \<Rightarrow> store \<Rightarrow> task \<times> store" where
  "step w e (Pending d) st =
     (case saveSummary_read e st of
        Inl err \<Rightarrow> (Done (Inl err), st)
      | Inr svs \<Rightarrow> (HasRead d svs, st))"
| "step w e (HasRead d svs) st = (Done (fst (w e d svs st)), snd (w e d svs st))"
| "step w e (Done r) st = (Done r, st)"

fun run_schedule :: "writer \<Rightarrow> env \<Rightarrow> nat list \<Rightarrow> task list \<Rightarrow> store \<Rightarrow> task list \<times> store" where
  "run_schedule w e [] ts st = (ts, st)"
| "run_schedule w e (i # rest) ts st =
     (if i < length ts then
        (case step w e (ts ! i) st of (t', st') \<Rightarrow> run_schedule w e rest (ts[i := t']) st')
      else run_schedule w e rest ts st)"


section \<open>The content script: platform detection\<close>

text \<open>
  The content script exists in two variants as well: the current one (names as in the
  source) and the earlier one (suffix \<open>_v0\<close>). Of a platform configuration the name and the
  host patterns are kept; the selectors and the text rule act on the page and enter the
  model of the scraper as what they select. Both variants register the same names and
  patterns. \<^verbatim>\<open>PLATFORMS\<close> is an object literal, whose keys are enumerated in the order they
  are written: an association list.
\<close>

record platform_config =
  name :: string
  hostPatterns :: "string list"

definition PLATFORMS :: "(string \<times> platform_config) list" where
  "PLATFORMS =
     [(''chatgpt'', \<lparr>name = ''ChatGPT'', hostPatterns = [''chatgpt.com'', ''chat.openai.com'']\<rparr>),
      (''claude'', \<lparr>name = ''Claude'', hostPatterns = [''claude.ai'']\<rparr>),
      (''gemini'', \<lparr>name = ''Gemini'', hostPatterns = [''gemini.google.com'']\<rparr>)]"

text \<open>
  \<^verbatim>\<open>String.prototype.indexOf\<close>: the first index at which the pattern occurs, else \<open>-1\<close>. The
  empty pattern occurs at index 0.
\<close>

fun indexOf_from :: "string \<Rightarrow> string \<Rightarrow> nat \<Rightarrow> int" where
  "indexOf_from [] p i = (if p = [] then int i else - 1)"
| "indexOf_from (c # cs) p i =
     (if prefix p (c # cs) then int i else indexOf_from cs p (Suc i))"

definition indexOf :: "string \<Rightarrow> string \<Rightarrow> int" where
  "indexOf h p = indexOf_from h p 0"

text \<open>\<^verbatim>\<open>String.prototype.includes\<close>\<close>

definition includes_str :: "string \<Rightarrow> string \<Rightarrow> bool" where
  "includes_str h p \<longleftrightarrow> indexOf h p \<noteq> - 1"

text \<open>The inner loop over \<^verbatim>\<open>cfg.hostPatterns\<close>: true as soon as a pattern occurs in the hostname.\<close>

fun pattern_loop :: "string list \<Rightarrow> string \<Rightarrow> bool" where
  "pattern_loop [] hostname = False"
| "pattern_loop (p # ps) hostname =
     (if indexOf hostname p \<noteq> - 1 then True else pattern_loop ps hostname)"

text \<open>
  The outer loop over the keys. The current variant returns the key, the name, the selectors
  and the text rule of the configuration; the earlier one the key and the whole
  configuration. Both are the pair of the key and the configuration here.
\<close>

fun platform_loop :: "(string \<times> platform_config) list \<Rightarrow> string \<Rightarrow> (string \<times> platform_config) option" where
  "platform_loop [] hostname = None"
| "platform_loop ((key, cfg) # rest) hostname =
     (if pattern_loop (hostPatterns cfg) hostname then Some (key, cfg)
      else platform_loop rest hostname)"

definition detectPlatform :: "string \<Rightarrow> (string \<times> platform_config) option" where
  "detectPlatform hostname = platform_loop PLATFORMS hostname"

text \<open>The earlier variant: \<^verbatim>\<open>config.hostPatterns.some(pattern => hostname.includes(pattern))\<close>.\<close>

fun platform_loop_v0 :: "(string \<times> platform_config) list \<Rightarrow> string \<Rightarrow> (string \<times> platform_config) option" where
  "platform_loop_v0 [] hostname = None"
| "platform_loop_v0 ((key, cfg) # rest) hostname =
     (if list_ex (\<lambda>pattern. includes_str hostname pattern) (hostPatterns cfg) then Some (key, cfg)
      else platform_loop_v0 rest hostname)"

definition detectPlatform_v0 :: "string \<Rightarrow> (string \<times> platform_config) option" where
  "detectPlatform_v0 hostname = platform_loop_v0 PLATFORMS hostname"

text \<open>A host pattern of the registry, with the key that registers it.\<close>

definition registered :: "(string \<times> platform_config) list \<Rightarrow> string \<Rightarrow> string \<Rightarrow> bool" where
  "registered reg key p \<longleftrightarrow> list_ex (\<lambda>(k, cfg). k = key \<and> p \<in> set (hostPatterns cfg)) reg"

text \<open>The hostname contains one of the patterns.\<close>

definition host_matches :: "string \<Rightarrow> platform_config \<Rightarrow> bool" where
  "host_matches hostname cfg \<longleftrightarrow> list_ex (\<lambda>p. sublist p hostname) (hostPatterns cfg)"

section \<open>The content script: sanitizing\<close>

text \<open>
  The sanitizers are chains of \<^verbatim>\<open>String.prototype.replace\<close> with regular expressions. The
  expressions are data, matched by a backtracking matcher that follows the order of
  alternatives of the ECMAScript matcher:
  \<^item> \<open>Chr c\<close> a pattern character, \<open>NotChr c\<close> the class \<^verbatim>\<open>[^c]\<close>, \<open>Word\<close> \<^verbatim>\<open>\w\<close>, \<open>Space\<close> \<^verbatim>\<open>\s\<close>,
    \<open>AnyChr\<close> \<^verbatim>\<open>[\s\S]\<close>;
  \<^item> \<open>Seq\<close> concatenation, \<open>Star\<close> the greedy \<^verbatim>\<open>*\<close>, \<open>LazyStar\<close> the lazy \<^verbatim>\<open>*?\<close>;
  \<^item> \<open>NegLook\<close> the negative lookahead \<^verbatim>\<open>(?!...)\<close>, \<open>WordB\<close> the assertion \<^verbatim>\<open>\b\<close>.
\<close>

datatype rx = Eps | Chr char | NotChr char | Word | Space | AnyChr
  | Seq rx rx | Star rx | LazyStar rx | NegLook rx | WordB

text \<open>
  With the flag \<^verbatim>\<open>i\<close> (and without \<^verbatim>\<open>u\<close>) two characters match when their upper-case
  forms agree, a character outside ASCII never being mapped into ASCII: for the ASCII
  patterns used here, comparison up to the case of ASCII letters.
\<close>

definition ascii_upper :: "char \<Rightarrow> char" where
  "ascii_upper c =
     (case map_of (zip ''abcdefghijklmnopqrstuvwxyz'' ''ABCDEFGHIJKLMNOPQRSTUVWXYZ'') c of
        Some u \<Rightarrow> u
      | None \<Rightarrow> c)"

definition same_char :: "bool \<Rightarrow> char \<Rightarrow> char \<Rightarrow> bool" where
  "same_char ic c x = (if ic then ascii_upper c = ascii_upper x else c = x)"

text \<open>\<^verbatim>\<open>\w\<close> is \<^verbatim>\<open>[A-Za-z0-9_]\<close>; \<^verbatim>\<open>\s\<close> and \<^verbatim>\<open>trim\<close> take the white space and line terminator
  characters, of which tab, LF, VT, FF, CR, space and the no-break space are below 256.\<close>

definition is_word :: "char \<Rightarrow> bool" where
  "is_word c \<longleftrightarrow>
     c \<in> set ''abcdefghijklmnopqrstuvwxyzABCDEFGHIJKLMNOPQRSTUVWXYZ0123456789_''"

definition is_space :: "char \<Rightarrow> bool" where
  "is_space c \<longleftrightarrow>
     c \<in> set [CHR 0x09, CHR 0x0A, CHR 0x0B, CHR 0x0C, CHR 0x0D, CHR 0x20, CHR 0xA0]"

text \<open>
  A position is the character before it (none at the start) and the rest of the input. The
  matcher returns the positions after every way of matching, in the order in which
  backtracking tries them; the first is the match that \<^verbatim>\<open>replace\<close> takes. An iteration of
  a star that consumes nothing is rejected, as in the ECMAScript matcher.
\<close>

fun rx_match :: "bool \<Rightarrow> rx \<Rightarrow> char option \<Rightarrow> string \<Rightarrow> (char option \<times> string) list" where
  "rx_match ic Eps pr s = [(pr, s)]"
| "rx_match ic (Chr c) pr s =
     (case s of [] \<Rightarrow> [] | x # xs \<Rightarrow> if same_char ic c x then [(Some x, xs)] else [])"
| "rx_match ic (NotChr c) pr s =
     (case s of [] \<Rightarrow> [] | x # xs \<Rightarrow> if \<not> same_char ic c x then [(Some x, xs)] else [])"
| "rx_match ic Word pr s =
     (case s of [] \<Rightarrow> [] | x # xs \<Rightarrow> if is_word x then [(Some x, xs)] else [])"
| "rx_match ic Space pr s =
     (case s of [] \<Rightarrow> [] | x # xs \<Rightarrow> if is_space x then [(Some x, xs)] else [])"
| "rx_match ic AnyChr pr s =
     (case s of [] \<Rightarrow> [] | x # xs \<Rightarrow> [(Some x, xs)])"
| "rx_match ic (Seq a b) pr s =
     concat (map (\<lambda>(pr', s'). rx_match ic b pr' s') (rx_match ic a pr s))"
| "rx_match ic (Star a) pr s =
     concat (map (\<lambda>(pr', s'). rx_match ic (Star a) pr' s')
       (filter (\<lambda>(pr', s'). length s' < length s) (rx_match ic a pr s))) @ [(pr, s)]"
| "rx_match ic (LazyStar a) pr s =
     (pr, s) # concat (map (\<lambda>(pr', s'). rx_match ic (LazyStar a) pr' s')
       (filter (\<lambda>(pr', s'). length s' < length s) (rx_match ic a pr s)))"
| "rx_match ic (NegLook a) pr s = (if rx_match ic a pr s = [] then [(pr, s)] else [])"
| "rx_match ic WordB pr s =
     (let a = (case pr of None \<Rightarrow> False | Some c \<Rightarrow> is_word c);
          b = (case s of [] \<Rightarrow> False | x # xs \<Rightarrow> is_word x)
      in if a \<noteq> b then [(pr, s)] else [])"

text \<open>\<^verbatim>\<open>a+\<close> and a literal string.\<close>

definition Plus :: "rx \<Rightarrow> rx" where
  "Plus a = Seq a (Star a)"

fun rx_lit :: "string \<Rightarrow> rx" where
  "rx_lit [] = Eps"
| "rx_lit (c # cs) = Seq (Chr c) (rx_lit cs)"

text \<open>
  \<^verbatim>\<open>s.replace(r, '')\<close> with the flag \<^verbatim>\<open>g\<close>: at each index from the left the expression is
  tried; a match is dropped and the search goes on behind it, else the character is kept. An
  empty match drops nothing and the search moves on by one.
\<close>

fun replace_from :: "bool \<Rightarrow> rx \<Rightarrow> char option \<Rightarrow> string \<Rightarrow> string" where
  "replace_from ic r pr [] = []"
| "replace_from ic r pr (x # xs) =
     (case rx_match ic r pr (x # xs) of
        [] \<Rightarrow> x # replace_from ic r (Some x) xs
      | (pr', s') # alternatives \<Rightarrow>
          if length s' < length (x # xs) then replace_from ic r pr' s'
          else x # replace_from ic r (Some x) xs)"

definition replace_all :: "bool \<Rightarrow> rx \<Rightarrow> string \<Rightarrow> string" where
  "replace_all ic r s = replace_from ic r None s"

text \<open>\<^verbatim>\<open>String.prototype.trim\<close>\<close>

definition trim :: "string \<Rightarrow> string" where
  "trim s = rev (dropWhile is_space (rev (dropWhile is_space s)))"

text \<open>The expressions of \<^verbatim>\<open>sanitize\<close>:
  \<^verbatim>\<open>/<script[^>]*>[\s\S]*?<\/script>/gi\<close>, \<^verbatim>\<open>/<style[^>]*>[\s\S]*?<\/style>/gi\<close>, \<^verbatim>\<open>/<[^>]+>/g\<close>,
  \<^verbatim>\<open>/javascript:/gi\<close> and \<^verbatim>\<open>/on\w+\s*=/gi\<close>.\<close>

definition script_block :: rx where
  "script_block = Seq (rx_lit ''<script'') (Seq (Star (NotChr CHR ''>'')) (Seq (Chr CHR ''>'')
     (Seq (LazyStar AnyChr) (rx_lit ''</script>''))))"

definition style_block :: rx where
  "style_block = Seq (rx_lit ''<style'') (Seq (Star (NotChr CHR ''>'')) (Seq (Chr CHR ''>'')
     (Seq (LazyStar AnyChr) (rx_lit ''</style>''))))"

definition any_tag :: rx where
  "any_tag = Seq (Chr CHR ''<'') (Seq (Plus (NotChr CHR ''>'')) (Chr CHR ''>''))"

definition script_uri :: rx where
  "script_uri = rx_lit ''javascript:''"

definition handler_attr :: rx where
  "handler_attr = Seq (rx_lit ''on'') (Seq (Plus Word) (Seq (Star Space) (Chr CHR ''='')))"

text \<open>The chain of replacements of \<^verbatim>\<open>sanitize\<close> on a string that is not empty.\<close>

definition sanitize_str :: "string \<Rightarrow> string" where
  "sanitize_str text =
     trim (replace_all True handler_attr (replace_all True script_uri (replace_all False any_tag
       (replace_all True style_block (replace_all True script_block text)))))"

text \<open>The earlier variant \<^verbatim>\<open>sanitizeText\<close> differs in the first two expressions:
  \<^verbatim>\<open>/<script\b[^<]*(?:(?!<\/script>)<[^<]*)*<\/script>/gi\<close> and the same for \<^verbatim>\<open>style\<close>.\<close>

definition block_v0 :: "string \<Rightarrow> string \<Rightarrow> rx" where
  "block_v0 opening closing =
     Seq (rx_lit opening) (Seq WordB (Seq (Star (NotChr CHR ''<''))
       (Seq (Star (Seq (NegLook (rx_lit closing)) (Seq (Chr CHR ''<'') (Star (NotChr CHR ''<'')))))
         (rx_lit closing))))"

definition sanitizeText_str :: "string \<Rightarrow> string" where
  "sanitizeText_str text =
     trim (replace_all True handler_attr (replace_all True script_uri (replace_all False any_tag
       (replace_all True (block_v0 ''<style'' ''</style>'')
         (replace_all True (block_v0 ''<script'' ''</script>'') text)))))"

text \<open>
  The argument of \<^verbatim>\<open>sanitize\<close> as a JavaScript value: \<^verbatim>\<open>undefined\<close>, \<^verbatim>\<open>null\<close>, a string,
  or any other value with its truthiness. \<^verbatim>\<open>if (!text) return ''\<close> answers every falsy
  value; a truthy value that is no string has no \<^verbatim>\<open>replace\<close> method.
\<close>

datatype js_value = JUndefined | JNull | JString string | JOther bool

datatype js_exception = TypeError

definition falsy :: "js_value \<Rightarrow> bool" where
  "falsy v = (case v of JUndefined \<Rightarrow> True | JNull \<Rightarrow> True | JString s \<Rightarrow> s = []
     | JOther t \<Rightarrow> \<not> t)"

definition sanitize :: "js_value \<Rightarrow> js_exception + string" where
  "sanitize text =
     (if falsy text then Inr []
      else case text of JString s \<Rightarrow> Inr (sanitize_str s) | _ \<Rightarrow> Inl TypeError)"

definition sanitizeText :: "js_value \<Rightarrow> js_exception + string" where
  "sanitizeText text =
     (if falsy text then Inr []
      else case text of JString s \<Rightarrow> Inr (sanitizeText_str s) | _ \<Rightarrow> Inl TypeError)"

text \<open>
  A character that every match of an expression has to read: one that occurs as a pattern
  character on the spine of concatenations. A criterion on the shape of the expression.
\<close>

fun must_read :: "char \<Rightarrow> rx \<Rightarrow> bool" where
  "must_read c (Chr d) = (d = c)"
| "must_read c (Seq a b) = (must_read c a \<or> must_read c b)"
| "must_read c r = False"

text \<open>The characters without which no expression of the sanitizers matches.\<close>

definition fragment_chars :: "char set" where
  "fragment_chars = {CHR ''<'', CHR '':'', CHR ''=''}"

text \<open>
  Whether an expression matches somewhere in a text: at the given position or at a later
  one, as the search of \<^verbatim>\<open>replace\<close> and \<^verbatim>\<open>test\<close> tries them.
\<close>

fun matches_in :: "bool \<Rightarrow> rx \<Rightarrow> char option \<Rightarrow> string \<Rightarrow> bool" where
  "matches_in ic r pr [] = (rx_match ic r pr [] \<noteq> [])"
| "matches_in ic r pr (x # xs) = (rx_match ic r pr (x # xs) \<noteq> [] \<or> matches_in ic r (Some x) xs)"

definition contains_match :: "bool \<Rightarrow> rx \<Rightarrow> string \<Rightarrow> bool" where
  "contains_match ic r s = matches_in ic r None s"

text \<open>
  A text without tags, said on the characters: after every \<^verbatim>\<open><\<close> the next character is
  \<^verbatim>\<open>>\<close>, or no \<^verbatim>\<open>>\<close> follows at all.
\<close>

fun tag_free :: "string \<Rightarrow> bool" where
  "tag_free [] = True"
| "tag_free (x # xs) =
     ((x \<noteq> CHR ''<'' \<or> xs = [] \<or> hd xs = CHR ''>'' \<or> CHR ''>'' \<notin> set xs) \<and> tag_free xs)"

text \<open>An expression none of whose matches reads the character \<open>c\<close>: a criterion on
  the shape of the expression.\<close>

fun avoids :: "bool \<Rightarrow> char \<Rightarrow> rx \<Rightarrow> bool" where
  "avoids ic c Eps = True"
| "avoids ic c (Chr d) = (\<not> same_char ic d c)"
| "avoids ic c (NotChr d) = False"
| "avoids ic c Word = (\<not> is_word c)"
| "avoids ic c Space = (\<not> is_space c)"
| "avoids ic c AnyChr = False"
| "avoids ic c (Seq a b) = (avoids ic c a \<and> avoids ic c b)"
| "avoids ic c (Star a) = avoids ic c a"
| "avoids ic c (LazyStar a) = avoids ic c a"
| "avoids ic c (NegLook a) = True"
| "avoids ic c WordB = True"

section \<open>The content script: scraping\<close>

text \<open>
  The page as the scraper sees it: the elements in document order, each with what the
  scraper reads from it: the attribute \<^verbatim>\<open>data-message-author-role\<close> (\<open>None\<close> when absent),
  whether it matches the selectors \<^verbatim>\<open>allMessages\<close> (\<^verbatim>\<open>messageContainer\<close> in the earlier
  variant), \<^verbatim>\<open>userMessage\<close> and \<^verbatim>\<open>assistantMessage\<close> of the platform, the result of
  \<^verbatim>\<open>getMessageText\<close>, and its vertical position \<^verbatim>\<open>getBoundingClientRect().top + scrollY\<close>,
  taken as an integer. \<^verbatim>\<open>querySelectorAll\<close> returns the matching elements in document
  order.
\<close>

record node =
  role_attr :: "string option"
  matches_all :: bool
  matches_user :: bool
  matches_assistant :: bool
  message_text :: string
  pos :: int

record chat_message =
  role :: string
  content :: string

text \<open>The role of an element on the unified path: the attribute when it is truthy, else
  by the user selector.\<close>

definition role_of :: "node \<Rightarrow> string" where
  "role_of el =
     (if truthy (role_attr el) then the (role_attr el)
      else if matches_user el then ''user'' else ''assistant'')"

text \<open>The loop over \<^verbatim>\<open>allEls\<close>: a message is pushed for every element with text.\<close>

fun unified_loop :: "node list \<Rightarrow> chat_message list \<Rightarrow> chat_message list" where
  "unified_loop [] messages = messages"
| "unified_loop (el # rest) messages =
     (let r = role_of el; text = message_text el
      in unified_loop rest
           (if text \<noteq> [] then messages @ [\<lparr>role = r, content = text\<rparr>] else messages))"

text \<open>The loop over the combined, sorted list of the fallback path.\<close>

fun combined_loop :: "(node \<times> string) list \<Rightarrow> chat_message list \<Rightarrow> chat_message list" where
  "combined_loop [] messages = messages"
| "combined_loop ((el, r) # rest) messages =
     (let txt = message_text el
      in combined_loop rest
           (if txt \<noteq> [] then messages @ [\<lparr>role = r, content = txt\<rparr>] else messages))"

text \<open>
  User elements, then assistant elements, sorted by position. \<^verbatim>\<open>Array.prototype.sort\<close> is
  stable, as is \<open>sort_key\<close>.
\<close>

definition combined_sorted :: "node list \<Rightarrow> (node \<times> string) list" where
  "combined_sorted doc =
     (let userEls = filter matches_user doc;
          assistEls = filter matches_assistant doc;
          combined = map (\<lambda>el. (el, ''user'')) userEls @ map (\<lambda>el. (el, ''assistant'')) assistEls
      in sort_key (\<lambda>x. pos (fst x)) combined)"

text \<open>
  \<^verbatim>\<open>scrapeConversation(maxTurns)\<close>, current variant; the argument is \<open>None\<close> when omitted.
  \<^verbatim>\<open>maxTurns || 15\<close> replaces a missing limit and the limit 0 by 15.
\<close>

definition scrapeConversation :: "node list \<Rightarrow> nat option \<Rightarrow> chat_message list" where
  "scrapeConversation doc maxTurns =
     (let maxTurns' = (case maxTurns of None \<Rightarrow> 15 | Some n \<Rightarrow> if n = 0 then 15 else n);
          allEls = filter matches_all doc;
          messages = (if length allEls > 0 then unified_loop allEls [] else []);
          messages' = (if length messages = 0 then combined_loop (combined_sorted doc) []
                       else messages);
          limit = maxTurns' * 2
      in if length messages' > limit then drop (length messages' - limit) messages'
         else messages')"

text \<open>\<^verbatim>\<open>messages.slice(-n)\<close> for a natural \<open>n\<close>: the last \<open>n\<close> elements, and, \<^verbatim>\<open>-0\<close> being
  \<^verbatim>\<open>0\<close>, the whole list for \<open>n = 0\<close>.\<close>

definition slice_last :: "'a list \<Rightarrow> nat \<Rightarrow> 'a list" where
  "slice_last xs n = (if n = 0 then xs else drop (length xs - n) xs)"

text \<open>
  The earlier variant: the position path whenever a user or an assistant element is found,
  the unified path otherwise; the default 15 applies to an omitted argument only.
\<close>

definition scrapeConversation_v0 :: "node list \<Rightarrow> nat option \<Rightarrow> chat_message list" where
  "scrapeConversation_v0 doc maxTurns =
     (let maxTurns' = (case maxTurns of None \<Rightarrow> 15 | Some n \<Rightarrow> n);
          userMessages = filter matches_user doc;
          assistantMessages = filter matches_assistant doc;
          messages =
            (if length userMessages = 0 \<and> length assistantMessages = 0
             then unified_loop (filter matches_all doc) []
             else combined_loop (combined_sorted doc) []);
          turns = maxTurns' * 2
      in slice_last messages turns)"

subsection \<open>The selectors of the platforms\<close>

text \<open>
  The message selectors of \<^verbatim>\<open>PLATFORMS\<close> are comma lists of simple selectors: a type selector
  (\<^verbatim>\<open>user-query\<close>), a class selector (\<^verbatim>\<open>.query-text\<close>), an attribute selector
  (\<^verbatim>\<open>[data-message-author-role]\<close>) and an attribute selector with a value
  (\<^verbatim>\<open>[data-testid=user-message]\<close>, the value quoted in the source). A list selects an element
  when one of its alternatives does.

  An element is what these selectors and the scraper read: the tag name in lower case, the
  classes, the attributes, the result of \<^verbatim>\<open>getMessageText\<close> and the vertical position.
\<close>

datatype simple_selector = TypeSel string | ClassSel string | AttrSel string
  | AttrIsSel string string

record element =
  tag_name :: string
  class_list :: "string list"
  attributes :: "(string \<times> string) list"
  inner_text :: string
  top_of :: int

fun matches_simple :: "simple_selector \<Rightarrow> element \<Rightarrow> bool" where
  "matches_simple (TypeSel t) el = (tag_name el = t)"
| "matches_simple (ClassSel c) el = (c \<in> set (class_list el))"
| "matches_simple (AttrSel a) el = (map_of (attributes el) a \<noteq> None)"
| "matches_simple (AttrIsSel a v) el = (map_of (attributes el) a = Some v)"

definition matches_selector :: "simple_selector list \<Rightarrow> element \<Rightarrow> bool" where
  "matches_selector sel el = list_ex (\<lambda>s. matches_simple s el) sel"

record selectors =
  userMessage :: "simple_selector list"
  assistantMessage :: "simple_selector list"
  allMessages :: "simple_selector list"

text \<open>The three entries of the current content script.\<close>

definition chatgpt_selectors :: selectors where
  "chatgpt_selectors = \<lparr>
     userMessage = [AttrIsSel ''data-message-author-role'' ''user''],
     assistantMessage = [AttrIsSel ''data-message-author-role'' ''assistant''],
     allMessages = [AttrSel ''data-message-author-role'']\<rparr>"

definition claude_selectors :: selectors where
  "claude_selectors = \<lparr>
     userMessage = [AttrIsSel ''data-testid'' ''user-message'', ClassSel ''font-user-message''],
     assistantMessage = [AttrIsSel ''data-testid'' ''ai-message'',
       ClassSel ''font-claude-message''],
     allMessages = [AttrIsSel ''data-testid'' ''user-message'',
       AttrIsSel ''data-testid'' ''ai-message'', ClassSel ''font-user-message'',
       ClassSel ''font-claude-message'']\<rparr>"

definition gemini_selectors :: selectors where
  "gemini_selectors = \<lparr>
     userMessage = [ClassSel ''query-text'', TypeSel ''user-query'', ClassSel ''user-query''],
     assistantMessage = [ClassSel ''model-response-text'', TypeSel ''model-response'',
       ClassSel ''response-content''],
     allMessages = [ClassSel ''query-text'', ClassSel ''model-response-text'',
       TypeSel ''user-query'', TypeSel ''model-response'']\<rparr>"

text \<open>The three entries of the earlier content script, whose unified selector is named
  \<^verbatim>\<open>messageContainer\<close>: it is the third field here.\<close>

definition chatgpt_selectors_v0 :: selectors where
  "chatgpt_selectors_v0 = \<lparr>
     userMessage = [AttrIsSel ''data-message-author-role'' ''user''],
     assistantMessage = [AttrIsSel ''data-message-author-role'' ''assistant''],
     allMessages = [AttrSel ''data-message-author-role'']\<rparr>"

definition claude_selectors_v0 :: selectors where
  "claude_selectors_v0 = \<lparr>
     userMessage = [AttrIsSel ''data-testid'' ''user-message''],
     assistantMessage = [AttrIsSel ''data-testid'' ''ai-message''],
     allMessages = [AttrIsSel ''data-testid'' ''user-message'',
       AttrIsSel ''data-testid'' ''ai-message'']\<rparr>"

definition gemini_selectors_v0 :: selectors where
  "gemini_selectors_v0 = \<lparr>
     userMessage = [TypeSel ''user-query'', ClassSel ''user-message''],
     assistantMessage = [TypeSel ''model-response'', ClassSel ''model-response''],
     allMessages = [TypeSel ''message-content'', ClassSel ''conversation-turn'']\<rparr>"

text \<open>What the scraper reads from an element under the selectors of a platform, and the
  nodes of a page, the list of its elements in document order.\<close>

definition node_of :: "selectors \<Rightarrow> element \<Rightarrow> node" where
  "node_of sel el = \<lparr>
     role_attr = map_of (attributes el) ''data-message-author-role'',
     matches_all = matches_selector (allMessages sel) el,
     matches_user = matches_selector (userMessage sel) el,
     matches_assistant = matches_selector (assistantMessage sel) el,
     message_text = inner_text el,
     pos = top_of el\<rparr>"

definition nodes_of :: "selectors \<Rightarrow> element list \<Rightarrow> node list" where
  "nodes_of sel page = map (node_of sel) page"

subsection \<open>Well-formed fixtures\<close>

text \<open>
  A well-formed message node has text, is selected by exactly one of the user and the
  assistant selector, and its role attribute, when present, names that role. In a
  well-formed fixture every node is one, and the positions grow strictly along the document.
\<close>

definition selector_role :: "node \<Rightarrow> string" where
  "selector_role el = (if matches_user el then ''user'' else ''assistant'')"

definition well_formed_node :: "node \<Rightarrow> bool" where
  "well_formed_node el \<longleftrightarrow>
     message_text el \<noteq> [] \<and> matches_user el \<noteq> matches_assistant el
     \<and> (role_attr el = None \<or> role_attr el = Some (selector_role el))"

definition well_formed_fixture :: "node list \<Rightarrow> bool" where
  "well_formed_fixture doc \<longleftrightarrow> list_all well_formed_node doc \<and> sorted_wrt (<) (map pos doc)"

text \<open>
  The unified selector \<^verbatim>\<open>allMessages\<close> of the platform selects every message node of the
  fixture, or none of them. The current variant takes the unified path as soon as one
  element is selected.
\<close>

definition selected_alike :: "node list \<Rightarrow> bool" where
  "selected_alike doc \<longleftrightarrow> list_all matches_all doc \<or> list_all (\<lambda>el. \<not> matches_all el) doc"

text \<open>The messages of a fixture, in document order.\<close>

definition messages_of :: "node list \<Rightarrow> chat_message list" where
  "messages_of doc = map (\<lambda>el. \<lparr>role = selector_role el, content = message_text el\<rparr>) doc"

text \<open>User and assistant take turns.\<close>

fun alternating :: "string list \<Rightarrow> bool" where
  "alternating [] = True"
| "alternating [r] = (r = ''user'' \<or> r = ''assistant'')"
| "alternating (r # r' # rest) =
     (((r = ''user'' \<and> r' = ''assistant'') \<or> (r = ''assistant'' \<and> r' = ''user''))
      \<and> alternating (r' # rest))"

text \<open>A ChatGPT page of two turns.\<close>

definition chatgpt_page :: "element list" where
  "chatgpt_page =
     [\<lparr>tag_name = ''div'', class_list = [],
        attributes = [(''data-message-author-role'', ''user'')],
        inner_text = ''build a todo app'', top_of = 100\<rparr>,
      \<lparr>tag_name = ''div'', class_list = [],
        attributes = [(''data-message-author-role'', ''assistant'')],
        inner_text = ''ok, using React'', top_of = 180\<rparr>,
      \<lparr>tag_name = ''div'', class_list = [],
        attributes = [(''data-message-author-role'', ''user'')],
        inner_text = ''add a due date'', top_of = 260\<rparr>,
      \<lparr>tag_name = ''div'', class_list = [],
        attributes = [(''data-message-author-role'', ''assistant'')],
        inner_text = ''done'', top_of = 340\<rparr>]"

text \<open>
  A Gemini page of one turn for the current content script: a \<^verbatim>\<open>user-query\<close> element and
  an element of class \<^verbatim>\<open>response-content\<close>, which the \<^verbatim>\<open>userMessage\<close> and the
  \<^verbatim>\<open>assistantMessage\<close> selector of the Gemini entry select.
\<close>

definition gemini_page :: "element list" where
  "gemini_page =
     [\<lparr>tag_name = ''user-query'', class_list = [], attributes = [],
        inner_text = ''build a todo app'', top_of = 100\<rparr>,
      \<lparr>tag_name = ''div'', class_list = [''response-content''], attributes = [],
        inner_text = ''ok, using React'', top_of = 180\<rparr>]"

text \<open>A Gemini page of one turn for the earlier content script.\<close>

definition gemini_page_v0 :: "element list" where
  "gemini_page_v0 =
     [\<lparr>tag_name = ''user-query'', class_list = [], attributes = [],
        inner_text = ''build a todo app'', top_of = 100\<rparr>,
      \<lparr>tag_name = ''model-response'', class_list = [], attributes = [],
        inner_text = ''ok, using React'', top_of = 180\<rparr>]"

text \<open>An element paired with the role its selector gives, as the fallback path pairs them.\<close>

definition tag :: "node \<Rightarrow> node \<times> string" where
  "tag el = (el, selector_role el)"

section \<open>Properties of the bounded store\<close>

lemma take_append_take: "take n (a @ take n b) = take n (a @ b)"
  by (simp add: min_def)

lemma saves_or_empty_update [simp]: "saves_or_empty (st\<lparr>saves := Some xs\<rparr>) = xs"
  by (simp add: saves_or_empty_def)

lemma saveSummary_ok:
  "storage_ok e \<Longrightarrow>
   saveSummary e d st = (Inr (), st\<lparr>saves := Some (take 20 (d # saves_or_empty st))\<rparr>)"
  by (simp add: saveSummary_def saveSummary_read_def saveSummary_write_def storage_ok_def)

lemma saveSummary_cb_ok:
  "storage_ok e \<Longrightarrow>
   saveSummary_cb e d st = (Inr (), st\<lparr>saves := Some (take 20 (d # saves_or_empty st))\<rparr>)"
  by (simp add: saveSummary_cb_def saveSummary_read_def saveSummary_write_cb_def storage_ok_def Let_def)

lemma insert_all_ok:
  "length es = length xs \<Longrightarrow> \<forall>e \<in> set es. storage_ok e \<Longrightarrow>
   saves_or_empty (insert_all (zip es xs) st) =
     (if xs = [] then saves_or_empty st else take 20 (rev xs @ saves_or_empty st))"
proof (induction xs arbitrary: es st)
  case Nil
  then show ?case by simp
next
  case (Cons x xs)
  then obtain e es' where es: "es = e # es'" by (cases es) auto
  with Cons.prems have ok: "storage_ok e" and len: "length es' = length xs"
    and oks: "\<forall>e \<in> set es'. storage_ok e"
    by auto
  let ?st = "st\<lparr>saves := Some (take 20 (x # saves_or_empty st))\<rparr>"
  have step: "insert_all (zip es (x # xs)) st = insert_all (zip es' xs) ?st"
    using es ok by (simp add: saveSummary_ok)
  have "saves_or_empty (insert_all (zip es' xs) ?st) =
     (if xs = [] then take 20 (x # saves_or_empty st)
      else take 20 (rev xs @ take 20 (x # saves_or_empty st)))"
    using Cons.IH[OF len oks, of ?st] by simp
  then show ?case unfolding step
    by (simp only: take_append_take) simp
qed

lemma insert_all_cb_ok:
  "length es = length xs \<Longrightarrow> \<forall>e \<in> set es. storage_ok e \<Longrightarrow>
   saves_or_empty (insert_all_cb (zip es xs) st) =
     (if xs = [] then saves_or_empty st else take 20 (rev xs @ saves_or_empty st))"
proof (induction xs arbitrary: es st)
  case Nil
  then show ?case by simp
next
  case (Cons x xs)
  then obtain e es' where es: "es = e # es'" by (cases es) auto
  with Cons.prems have ok: "storage_ok e" and len: "length es' = length xs"
    and oks: "\<forall>e \<in> set es'. storage_ok e"
    by auto
  let ?st = "st\<lparr>saves := Some (take 20 (x # saves_or_empty st))\<rparr>"
  have step: "insert_all_cb (zip es (x # xs)) st = insert_all_cb (zip es' xs) ?st"
    using es ok by (simp add: saveSummary_cb_ok)
  have "saves_or_empty (insert_all_cb (zip es' xs) ?st) =
     (if xs = [] then take 20 (x # saves_or_empty st)
      else take 20 (rev xs @ take 20 (x # saves_or_empty st)))"
    using Cons.IH[OF len oks, of ?st] by simp
  then show ?case unfolding step
    by (simp only: take_append_take) simp
qed

text \<open>Whatever the storage calls report, an insert either leaves the store alone or leaves
  at most 20 entries.\<close>

lemma saveSummary_bound:
  "length (saves_or_empty (snd (saveSummary e d st))) \<le> 20 \<or> snd (saveSummary e d st) = st"
  by (auto simp: saveSummary_def saveSummary_read_def saveSummary_write_def Let_def
      split: option.splits)

lemma saveSummary_cb_bound:
  "length (saves_or_empty (snd (saveSummary_cb e d st))) \<le> 20 \<or> snd (saveSummary_cb e d st) = st"
  by (auto simp: saveSummary_cb_def saveSummary_read_def saveSummary_write_cb_def Let_def
      split: option.splits)

lemma insert_all_bound:
  "length (saves_or_empty st) \<le> 20 \<Longrightarrow> length (saves_or_empty (insert_all eds st)) \<le> 20"
proof (induction eds arbitrary: st)
  case Nil
  then show ?case by simp
next
  case (Cons a eds)
  obtain e d where a: "a = (e, d)" by (cases a)
  have "length (saves_or_empty (snd (saveSummary e d st))) \<le> 20"
    using saveSummary_bound[of e d st] Cons.prems by auto
  then show ?case using Cons.IH a by simp
qed

lemma insert_all_cb_bound:
  "length (saves_or_empty st) \<le> 20 \<Longrightarrow> length (saves_or_empty (insert_all_cb eds st)) \<le> 20"
proof (induction eds arbitrary: st)
  case Nil
  then show ?case by simp
next
  case (Cons a eds)
  obtain e d where a: "a = (e, d)" by (cases a)
  have "length (saves_or_empty (snd (saveSummary_cb e d st))) \<le> 20"
    using saveSummary_cb_bound[of e d st] Cons.prems by auto
  then show ?case using Cons.IH a by simp
qed

lemma newest_twenty_of_25:
  assumes "length (xs::'a list) = 25"
  shows "length (take 20 (rev xs)) = 20" "hd (take 20 (rev xs)) = xs ! 24"
    "last (take 20 (rev xs)) = xs ! 5"
proof -
  show "length (take 20 (rev xs)) = 20" using assms by simp
  have ne: "take 20 (rev xs) \<noteq> []" using assms by auto
  have "hd (take 20 (rev xs)) = take 20 (rev xs) ! 0" by (rule hd_conv_nth[OF ne])
  then show "hd (take 20 (rev xs)) = xs ! 24" using assms by (simp add: rev_nth)
  have "last (take 20 (rev xs)) = take 20 (rev xs) ! 19"
    using assms by (simp add: last_conv_nth[OF ne])
  then show "last (take 20 (rev xs)) = xs ! 5" using assms by (simp add: rev_nth)
qed

text \<open>
  Claim C2. Inserting 25 summaries \<open>xs = [S1, ..., S25]\<close> in order into a store without saves,
  with no storage call failing, leaves exactly 20 entries, the head being S25 (\<open>xs ! 24\<close>) and
  the last being S6 (\<open>xs ! 5\<close>): the list is the 20 newest, most recent first. In general, a
  store holding at most 20 entries holds at most 20 after any run of inserts (whether or not
  storage calls fail), and every successful insert puts the new summary at the head. All of
  this holds for both variants of \<^verbatim>\<open>saveSummary\<close>.
\<close>

theorem saveSummary_bounded_most_recent_first:
  "(length xs = 25 \<and> length es = 25 \<and> (\<forall>e \<in> set es. storage_ok e) \<and> saves_or_empty st = [] \<longrightarrow>
      saves_or_empty (insert_all (zip es xs) st) = take 20 (rev xs)
      \<and> saves_or_empty (insert_all_cb (zip es xs) st) = take 20 (rev xs)
      \<and> length (take 20 (rev xs)) = 20
      \<and> hd (take 20 (rev xs)) = xs ! 24
      \<and> last (take 20 (rev xs)) = xs ! 5)
   \<and> (length (saves_or_empty st') \<le> 20 \<longrightarrow>
        length (saves_or_empty (insert_all eds st')) \<le> 20
        \<and> length (saves_or_empty (insert_all_cb eds st')) \<le> 20)
   \<and> (storage_ok e \<longrightarrow>
        fst (saveSummary e d st'') = Inr ()
        \<and> saves_or_empty (snd (saveSummary e d st'')) = take 20 (d # saves_or_empty st'')
        \<and> hd (saves_or_empty (snd (saveSummary e d st''))) = d
        \<and> length (saves_or_empty (snd (saveSummary e d st''))) \<le> 20
        \<and> saveSummary_cb e d st'' = saveSummary e d st'')"
proof (intro conjI impI)
  assume h: "length xs = 25 \<and> length es = 25 \<and> (\<forall>e \<in> set es. storage_ok e) \<and> saves_or_empty st = []"
  then have ne: "xs \<noteq> []" and len: "length es = length xs" and oks: "\<forall>e \<in> set es. storage_ok e"
    by auto
  show "saves_or_empty (insert_all (zip es xs) st) = take 20 (rev xs)"
    using insert_all_ok[OF len oks, of st] ne h by simp
  show "saves_or_empty (insert_all_cb (zip es xs) st) = take 20 (rev xs)"
    using insert_all_cb_ok[OF len oks, of st] ne h by simp
  from h have l25: "length xs = 25" by simp
  show "length (take 20 (rev xs)) = 20" by (rule newest_twenty_of_25(1)[OF l25])
  show "hd (take 20 (rev xs)) = xs ! 24" by (rule newest_twenty_of_25(2)[OF l25])
  show "last (take 20 (rev xs)) = xs ! 5" by (rule newest_twenty_of_25(3)[OF l25])
next
  assume b: "length (saves_or_empty st') \<le> 20"
  show "length (saves_or_empty (insert_all eds st')) \<le> 20"
    by (rule insert_all_bound[OF b])
  show "length (saves_or_empty (insert_all_cb eds st')) \<le> 20"
    by (rule insert_all_cb_bound[OF b])
next
  assume ok: "storage_ok e"
  show "fst (saveSummary e d st'') = Inr ()" by (simp add: saveSummary_ok[OF ok])
  show "saves_or_empty (snd (saveSummary e d st'')) = take 20 (d # saves_or_empty st'')"
    by (simp add: saveSummary_ok[OF ok])
  show "hd (saves_or_empty (snd (saveSummary e d st''))) = d"
    by (simp add: saveSummary_ok[OF ok])
  show "length (saves_or_empty (snd (saveSummary e d st''))) \<le> 20"
    by (simp add: saveSummary_ok[OF ok])
  show "saveSummary_cb e d st'' = saveSummary e d st''"
    by (simp add: saveSummary_ok[OF ok] saveSummary_cb_ok[OF ok])
qed

text \<open>The 25 numbered sample summaries inserted after installation: S25 first, S6 last.\<close>

theorem saveSummary_bounded_most_recent_first_witness:
  "length (map sample_save [1..<26]) = 25
   \<and> length (replicate 25 quiet_env) = 25
   \<and> list_all storage_ok (replicate 25 quiet_env)
   \<and> saves_or_empty installed_store = []
   \<and> length (saves_or_empty installed_store) \<le> 20
   \<and> storage_ok quiet_env
   \<and> length (saves_or_empty (insert_all (zip (replicate 25 quiet_env)
         (map sample_save [1..<26])) installed_store)) = 20
   \<and> hd (saves_or_empty (insert_all (zip (replicate 25 quiet_env)
         (map sample_save [1..<26])) installed_store)) = sample_save 25
   \<and> last (saves_or_empty (insert_all (zip (replicate 25 quiet_env)
         (map sample_save [1..<26])) installed_store)) = sample_save 6
   \<and> length (saves_or_empty (insert_all_cb [(quiet_env, sample_save 1)] installed_store)) \<le> 20
   \<and> hd (saves_or_empty (snd (saveSummary quiet_env (sample_save 7) installed_store)))
       = sample_save 7"
proof -
  have ok: "storage_ok quiet_env" by (simp add: storage_ok_def quiet_env_def)
  have oks: "list_all storage_ok (replicate 25 quiet_env)" using ok by (simp add: list_all_iff)
  have emp: "saves_or_empty installed_store = []"
    by (simp add: saves_or_empty_def installed_store_def)
  have n24: "map sample_save [1..<26] ! 24 = sample_save 25" by simp
  have n5: "map sample_save [1..<26] ! 5 = sample_save 6" by simp
  show ?thesis
    using saveSummary_bounded_most_recent_first[where xs = "map sample_save [1..<26]"
        and es = "replicate 25 quiet_env" and st = installed_store and st' = installed_store
        and eds = "[(quiet_env, sample_save 1)]" and e = quiet_env and d = "sample_save 7"
        and st'' = installed_store] ok oks emp n24 n5
    by (simp add: list_all_iff)
qed

section \<open>Properties of deleteSave\<close>

lemma filtered_loop_filter:
  "filtered_loop svs i acc = acc @ filter (\<lambda>save. id_s save \<noteq> i) svs"
  by (induction svs arbitrary: acc) auto

lemma deleteSave_cb_eq: "deleteSave_cb e i st = deleteSave e i st"
  by (simp add: deleteSave_cb_def deleteSave_def filtered_loop_filter Let_def split: option.splits)

lemma filter_absent: "i \<notin> set (map id_s svs) \<Longrightarrow> filter (\<lambda>save. id_s save \<noteq> i) svs = svs"
  by (induction svs) auto

lemma deleteSave_twice: "snd (deleteSave e j (snd (deleteSave e j st))) = snd (deleteSave e j st)"
  by (simp add: deleteSave_def Let_def split: option.splits)

text \<open>
  Claim C8. When no storage call fails and no saved summary has the id, \<^verbatim>\<open>deleteSave\<close>
  answers with a success response and the list of saves is what it was (the stored record is
  written back with the same list). Deleting is idempotent: a second delete of the same id,
  present or not, changes nothing more. Both variants.
\<close>

theorem deleteSave_absent_id_succeeds:
  "(storage_ok e \<and> i \<notin> set (map id_s (saves_or_empty st)) \<longrightarrow>
      deleteSave e i st = (Success NoData, st\<lparr>saves := Some (saves_or_empty st)\<rparr>)
      \<and> deleteSave_cb e i st = (Success NoData, st\<lparr>saves := Some (saves_or_empty st)\<rparr>)
      \<and> saves_or_empty (snd (deleteSave e i st)) = saves_or_empty st
      \<and> saves_or_empty (snd (deleteSave_cb e i st)) = saves_or_empty st)
   \<and> snd (deleteSave e' j (snd (deleteSave e' j st'))) = snd (deleteSave e' j st')
   \<and> snd (deleteSave_cb e' j (snd (deleteSave_cb e' j st'))) = snd (deleteSave_cb e' j st')"
proof (intro conjI impI)
  assume h: "storage_ok e \<and> i \<notin> set (map id_s (saves_or_empty st))"
  then have f: "filter (\<lambda>save. id_s save \<noteq> i) (saves_or_empty st) = saves_or_empty st"
    by (simp add: filter_absent)
  show d: "deleteSave e i st = (Success NoData, st\<lparr>saves := Some (saves_or_empty st)\<rparr>)"
    using h f by (simp add: deleteSave_def storage_ok_def)
  then show "deleteSave_cb e i st = (Success NoData, st\<lparr>saves := Some (saves_or_empty st)\<rparr>)"
    by (simp add: deleteSave_cb_eq)
  show "saves_or_empty (snd (deleteSave e i st)) = saves_or_empty st"
    using d by simp
  then show "saves_or_empty (snd (deleteSave_cb e i st)) = saves_or_empty st"
    by (simp add: deleteSave_cb_eq)
next
  show "snd (deleteSave e' j (snd (deleteSave e' j st'))) = snd (deleteSave e' j st')"
    by (rule deleteSave_twice)
  then show "snd (deleteSave_cb e' j (snd (deleteSave_cb e' j st'))) = snd (deleteSave_cb e' j st')"
    by (simp add: deleteSave_cb_eq)
qed

text \<open>Two saves S2, S1: deleting the unknown id S9 succeeds and changes nothing.\<close>

theorem deleteSave_absent_id_succeeds_witness:
  "storage_ok quiet_env \<and> ''S9'' \<notin> set (map id_s (saves_or_empty two_saves))
   \<and> deleteSave quiet_env ''S9'' two_saves = (Success NoData, two_saves)
   \<and> deleteSave_cb quiet_env ''S9'' two_saves = (Success NoData, two_saves)
   \<and> saves_or_empty (snd (deleteSave quiet_env ''S2'' two_saves)) = [sample_save 1]
   \<and> snd (deleteSave quiet_env ''S2'' (snd (deleteSave quiet_env ''S2'' two_saves)))
       = snd (deleteSave quiet_env ''S2'' two_saves)"
proof -
  have ok: "storage_ok quiet_env" by (simp add: storage_ok_def quiet_env_def)
  have sv: "saves_or_empty two_saves = [sample_save 2, sample_save 1]"
    by (simp add: two_saves_def)
  have absent: "''S9'' \<notin> set (map id_s (saves_or_empty two_saves))"
    by (simp add: sv sample_save_def)
  have same: "two_saves\<lparr>saves := Some (saves_or_empty two_saves)\<rparr> = two_saves"
    by (simp add: sv) (simp add: two_saves_def)
  have del: "saves_or_empty (snd (deleteSave quiet_env ''S2'' two_saves)) = [sample_save 1]"
    by (simp add: deleteSave_def quiet_env_def sv sample_save_def)
  show ?thesis
    using deleteSave_absent_id_succeeds[where e = quiet_env and i = "''S9''" and st = two_saves
        and e' = quiet_env and j = "''S2''" and st' = two_saves] ok absent same del
    by simp
qed

section \<open>Properties of handleSummarize\<close>

lemma is_failure_simps [simp]: "is_failure (Failure x)" "\<not> is_failure (Success p)"
  by (simp_all add: is_failure_def)

lemma finish_summarize_failed:
  "(case r of Inr (Some t) \<Rightarrow> False | _ \<Rightarrow> True) \<Longrightarrow>
   is_failure (fst (finish_summarize e msg r s)) \<and> snd (finish_summarize e msg r s) = s"
  by (auto simp: finish_summarize_def split: sum.splits option.splits)

lemma finish_summarize_cb_failed:
  "(case r of Inr (Some t) \<Rightarrow> False | _ \<Rightarrow> True) \<Longrightarrow>
   is_failure (fst (finish_summarize_cb e msg r s)) \<and> snd (finish_summarize_cb e msg r s) = s"
  by (auto simp: finish_summarize_cb_def split: sum.splits option.splits)

lemma api_call_failed:
  "provider_failed r \<Longrightarrow> (case api_call l r of Inr (Some t) \<Rightarrow> False | _ \<Rightarrow> True)"
  by (auto simp: provider_failed_def api_call_def
      split: fetch_outcome.splits json_body.splits content_lookup.splits err_lookup.splits)

lemma handleSummarize_provider_failed:
  assumes "provider_failed (fetch_result e)"
  shows "is_failure (fst (handleSummarize e msg s)) \<and> storage (snd (handleSummarize e msg s)) = storage s"
proof -
  note f = finish_summarize_failed[OF api_call_failed[OF assms]]
  show ?thesis
    by (auto simp: handleSummarize_def Let_def callOpenAI_def callGemini_def f
        split: response.splits payload.splits)
qed

lemma handleSummarize_cb_provider_failed:
  assumes "provider_failed (fetch_result e)"
  shows "is_failure (fst (handleSummarize_cb e msg s)) \<and> storage (snd (handleSummarize_cb e msg s)) = storage s"
proof -
  note f = finish_summarize_cb_failed[OF api_call_failed[OF assms]]
  show ?thesis
    by (auto simp: handleSummarize_cb_def Let_def callOpenAI_def callGemini_def f
        split: option.splits)
qed

lemma finish_summarize_calls: "calls (snd (finish_summarize e msg r s)) = calls s"
  by (simp add: finish_summarize_def Let_def split: sum.splits option.splits prod.splits)

lemma finish_summarize_cb_calls: "calls (snd (finish_summarize_cb e msg r s)) = calls s"
  by (simp add: finish_summarize_cb_def Let_def
      split: sum.splits option.splits prod.splits error_text.splits)

lemma handleSummarize_calls:
  assumes "storage (snd (handleSummarize e msg s)) \<noteq> storage s"
  shows "\<exists>c. calls (snd (handleSummarize e msg s)) = calls s @ [c]"
proof -
  have "snd (handleSummarize e msg s) = s
      \<or> (\<exists>c. calls (snd (handleSummarize e msg s)) = calls s @ [c])"
    by (simp add: handleSummarize_def Let_def finish_summarize_calls
        split: response.splits payload.splits)
  with assms show ?thesis by auto
qed

lemma handleSummarize_cb_calls:
  assumes "storage (snd (handleSummarize_cb e msg s)) \<noteq> storage s"
  shows "\<exists>c. calls (snd (handleSummarize_cb e msg s)) = calls s @ [c]"
proof -
  have "snd (handleSummarize_cb e msg s) = s
      \<or> (\<exists>c. calls (snd (handleSummarize_cb e msg s)) = calls s @ [c])"
    by (simp add: handleSummarize_cb_def Let_def finish_summarize_cb_calls
        split: option.splits)
  with assms show ?thesis by auto
qed

text \<open>
  Claim C9. When the provider call fails (the request is rejected, the status is not a
  success, or the answer is not JSON, lacks the text path or holds no string there), both
  variants of \<^verbatim>\<open>handleSummarize\<close> answer with a failure and leave the store as it was.
  Whenever the store has changed, the provider call had succeeded and had been issued before.
\<close>

theorem handleSummarize_provider_failure_keeps_store:
  "(provider_failed (fetch_result e) \<longrightarrow>
      is_failure (fst (handleSummarize e msg s))
      \<and> storage (snd (handleSummarize e msg s)) = storage s
      \<and> is_failure (fst (handleSummarize_cb e msg s))
      \<and> storage (snd (handleSummarize_cb e msg s)) = storage s)
   \<and> (storage (snd (handleSummarize e msg s)) \<noteq> storage s \<longrightarrow>
        \<not> provider_failed (fetch_result e)
        \<and> (\<exists>c. calls (snd (handleSummarize e msg s)) = calls s @ [c]))
   \<and> (storage (snd (handleSummarize_cb e msg s)) \<noteq> storage s \<longrightarrow>
        \<not> provider_failed (fetch_result e)
        \<and> (\<exists>c. calls (snd (handleSummarize_cb e msg s)) = calls s @ [c]))"
  using handleSummarize_provider_failed[of e msg s] handleSummarize_cb_provider_failed[of e msg s]
    handleSummarize_calls[of e msg s] handleSummarize_cb_calls[of e msg s]
  by blast

text \<open>A 401 answer with an error message: the message comes back, the store is untouched.\<close>

theorem handleSummarize_provider_failure_keeps_store_witness:
  "provider_failed (fetch_result failing_env)
   \<and> fst (handleSummarize failing_env sample_message keyed_state) = Failure (Text ''Incorrect API key'')
   \<and> is_failure (fst (handleSummarize_cb failing_env sample_message keyed_state))
   \<and> storage (snd (handleSummarize failing_env sample_message keyed_state)) = storage keyed_state
   \<and> storage (snd (handleSummarize_cb failing_env sample_message keyed_state)) = storage keyed_state
   \<and> storage (snd (handleSummarize quiet_env sample_message keyed_state)) \<noteq> storage keyed_state
   \<and> \<not> provider_failed (fetch_result quiet_env)"
proof -
  have pf: "provider_failed (fetch_result failing_env)"
    by (simp add: failing_env_def quiet_env_def provider_failed_def)
  have r: "fst (handleSummarize failing_env sample_message keyed_state) = Failure (Text ''Incorrect API key'')"
    by (simp add: handleSummarize_def getSettings_def failing_env_def quiet_env_def keyed_state_def
        settings_or_empty_def truthy_def callOpenAI_def api_call_def finish_summarize_def)
  have ch: "storage (snd (handleSummarize quiet_env sample_message keyed_state)) \<noteq> storage keyed_state"
    by (simp add: handleSummarize_def getSettings_def quiet_env_def keyed_state_def
        settings_or_empty_def truthy_def callOpenAI_def api_call_def finish_summarize_def
        saveSummary_def saveSummary_read_def saveSummary_write_def saves_or_empty_def Let_def)
  show ?thesis
    using handleSummarize_provider_failure_keeps_store[of failing_env sample_message keyed_state]
      handleSummarize_provider_failure_keeps_store[of quiet_env sample_message keyed_state]
      pf r ch
    by simp
qed

lemma handleSummarize_no_key:
  assumes "\<not> truthy (apiKey (settings_or_empty (storage s)))"
  shows "handleSummarize e msg s = (Failure (Text not_configured), s)"
  using assms by (auto simp: handleSummarize_def getSettings_def split: option.splits)

lemma handleSummarize_cb_no_key:
  assumes "\<not> truthy (apiKey (settings_or_empty (storage s)))"
  shows "handleSummarize_cb e msg s =
    (case lastError_get_settings e of Some m \<Rightarrow> Failure (Text m)
     | None \<Rightarrow> Failure (Text not_configured_cb), s)"
  using assms by (auto simp: handleSummarize_cb_def Let_def split: option.splits)

text \<open>
  Claim C7. When the stored settings hold no API key (no settings record, no \<^verbatim>\<open>apiKey\<close>,
  or the empty string), a summarize request fails, the state is unchanged and no provider
  call is issued. The promise variant answers with the credential error in every case; the
  callback variant answers with the credential error when the settings were read, and with
  the storage error when the read itself failed.
\<close>

theorem handleSummarize_without_key_fails:
  "\<not> truthy (apiKey (settings_or_empty (storage s))) \<longrightarrow>
     fst (handleSummarize e msg s) = Failure (Text not_configured)
     \<and> calls (snd (handleSummarize e msg s)) = calls s
     \<and> snd (handleSummarize e msg s) = s
     \<and> is_failure (fst (handleSummarize_cb e msg s))
     \<and> calls (snd (handleSummarize_cb e msg s)) = calls s
     \<and> snd (handleSummarize_cb e msg s) = s
     \<and> (lastError_get_settings e = None \<longrightarrow>
          fst (handleSummarize_cb e msg s) = Failure (Text not_configured_cb))"
  by (auto simp: handleSummarize_no_key handleSummarize_cb_no_key split: option.splits)

text \<open>The store as installed has the empty key.\<close>

theorem handleSummarize_without_key_fails_witness:
  "\<not> truthy (apiKey (settings_or_empty (storage unkeyed_state)))
   \<and> lastError_get_settings quiet_env = None
   \<and> handleSummarize quiet_env sample_message unkeyed_state = (Failure (Text not_configured), unkeyed_state)
   \<and> handleSummarize_cb quiet_env sample_message unkeyed_state = (Failure (Text not_configured_cb), unkeyed_state)
   \<and> calls (snd (handleSummarize quiet_env sample_message unkeyed_state)) = []"
proof -
  have nk: "\<not> truthy (apiKey (settings_or_empty (storage unkeyed_state)))"
    by (simp add: unkeyed_state_def installed_store_def settings_or_empty_def truthy_def)
  have q: "lastError_get_settings quiet_env = None" by (simp add: quiet_env_def)
  have c: "calls unkeyed_state = []" by (simp add: unkeyed_state_def)
  show ?thesis
    using handleSummarize_without_key_fails[of unkeyed_state quiet_env sample_message] nk q c
    by (simp add: prod_eq_iff)
qed

lemma finish_summarize_preview:
  "fst (finish_summarize e msg r s) = Success (SaveData d) \<Longrightarrow>
   preview d = take 100 (summary d) @ ''...''"
  by (auto simp: finish_summarize_def substring0_def Let_def
      split: sum.splits option.splits prod.splits)

lemma finish_summarize_cb_preview:
  "fst (finish_summarize_cb e msg r s) = Success (SaveData d) \<Longrightarrow>
   preview d = take 120 (summary d)"
  by (auto simp: finish_summarize_cb_def substring0_def Let_def
      split: sum.splits option.splits prod.splits error_text.splits if_splits)

lemma handleSummarize_preview_eq:
  "fst (handleSummarize e msg s) = Success (SaveData d) \<Longrightarrow>
   preview d = take 100 (summary d) @ ''...''"
  by (auto simp: handleSummarize_def Let_def dest: finish_summarize_preview
      split: response.splits payload.splits if_splits)

lemma handleSummarize_cb_preview_eq:
  "fst (handleSummarize_cb e msg s) = Success (SaveData d) \<Longrightarrow>
   preview d = take 120 (summary d)"
  by (auto simp: handleSummarize_cb_def Let_def dest: finish_summarize_cb_preview
      split: option.splits if_splits)

text \<open>
  Claim C5, as amended. In the callback variant the preview of a constructed summary is the
  first 120 characters of the summary, hence a prefix of it. In the promise variant the
  preview is the first 100 characters of the summary followed by \<^verbatim>\<open>...\<close>: the first 100
  characters are a prefix of both.
\<close>

theorem handleSummarize_preview:
  "(fst (handleSummarize_cb e msg s) = Success (SaveData d) \<longrightarrow>
      preview d = take 120 (summary d)
      \<and> prefix (preview d) (summary d)
      \<and> length (preview d) = min 120 (length (summary d)))
   \<and> (fst (handleSummarize e msg s) = Success (SaveData d') \<longrightarrow>
      preview d' = take 100 (summary d') @ ''...''
      \<and> prefix (take 100 (summary d')) (summary d')
      \<and> prefix (take 100 (summary d')) (preview d')
      \<and> length (preview d') = min 100 (length (summary d')) + 3)"
proof (intro conjI impI)
  assume a: "fst (handleSummarize_cb e msg s) = Success (SaveData d)"
  show p: "preview d = take 120 (summary d)" by (rule handleSummarize_cb_preview_eq[OF a])
  show "prefix (preview d) (summary d)" unfolding p by (rule take_is_prefix)
  show "length (preview d) = min 120 (length (summary d))" unfolding p by simp
next
  assume a: "fst (handleSummarize e msg s) = Success (SaveData d')"
  show p: "preview d' = take 100 (summary d') @ ''...''" by (rule handleSummarize_preview_eq[OF a])
  show "prefix (take 100 (summary d')) (summary d')" by (rule take_is_prefix)
  show "prefix (take 100 (summary d')) (preview d')" unfolding p by simp
  show "length (preview d') = min 100 (length (summary d')) + 3" unfolding p by simp
qed

lemma run_cb: "fst (handleSummarize_cb quiet_env sample_message keyed_state) = Success (SaveData sample_result_cb)"
  by (simp add: sample_result_cb_def handleSummarize_cb_def getSettings_def quiet_env_def keyed_state_def sample_message_def
        settings_or_empty_def truthy_def callOpenAI_def api_call_def finish_summarize_cb_def or_default_def
        saveSummary_cb_def saveSummary_read_def saveSummary_write_cb_def saves_or_empty_def Let_def substring0_def)

lemma run_promise: "fst (handleSummarize quiet_env sample_message keyed_state) = Success (SaveData sample_result)"
  by (simp add: sample_result_def handleSummarize_def getSettings_def quiet_env_def keyed_state_def sample_message_def
        settings_or_empty_def truthy_def callOpenAI_def api_call_def finish_summarize_def
        saveSummary_def saveSummary_read_def saveSummary_write_def saves_or_empty_def Let_def substring0_def)

text \<open>
  The promise variant on the sample request: the summary is \<open>SYSTEM HANDOFF: todo app\<close>, the
  preview is that text followed by three dots, which is no prefix of the summary.
\<close>

theorem handleSummarize_preview_counterexample:
  "fst (handleSummarize quiet_env sample_message keyed_state) = Success (SaveData sample_result)
   \<and> summary sample_result = ''SYSTEM HANDOFF: todo app''
   \<and> preview sample_result = ''SYSTEM HANDOFF: todo app...''
   \<and> \<not> prefix (preview sample_result) (summary sample_result)"
  using run_promise by (simp add: sample_result_def)

theorem handleSummarize_preview_witness:
  "fst (handleSummarize_cb quiet_env sample_message keyed_state) = Success (SaveData sample_result_cb)
   \<and> fst (handleSummarize quiet_env sample_message keyed_state) = Success (SaveData sample_result)
   \<and> prefix (preview sample_result_cb) (summary sample_result_cb)
   \<and> preview sample_result_cb = take 120 (summary sample_result_cb)
   \<and> preview sample_result = take 100 (summary sample_result) @ ''...''"
  using handleSummarize_preview[of quiet_env sample_message keyed_state sample_result_cb sample_result]
    run_cb run_promise
  by (simp add: take_is_prefix)

section \<open>Properties of interleaved inserts\<close>

text \<open>Run without interruption, the two steps of a task are \<^verbatim>\<open>saveSummary\<close>.\<close>

lemma step_pair_is_saveSummary:
  "snd (run_schedule saveSummary_write e [0, 0] [Pending d] st) = snd (saveSummary e d st)"
  "snd (run_schedule saveSummary_write_cb e [0, 0] [Pending d] st) = snd (saveSummary_cb e d st)"
  by (simp_all add: saveSummary_def saveSummary_cb_def split: sum.splits)

lemma read_ok: "storage_ok e \<Longrightarrow> saveSummary_read e st = Inr (saves_or_empty st)"
  by (simp add: saveSummary_read_def storage_ok_def)



lemma write_fst_ok:
  "storage_ok e \<Longrightarrow> fst (saveSummary_write e d svs st) = Inr ()"
  "storage_ok e \<Longrightarrow> fst (saveSummary_write_cb e d svs st) = Inr ()"
  by (simp_all add: saveSummary_write_def saveSummary_write_cb_def storage_ok_def Let_def)









text \<open>Under each of the six schedules both inserts complete with success, whatever the store
  held: the lost entry is reported to nobody.\<close>

lemma storage_ok_write: "storage_ok e \<Longrightarrow> lastError_set_saves e = None"
  by (simp add: storage_ok_def)

lemma two_inserts_all_succeed:
  assumes ok: "storage_ok e"
    and s: "sched \<in> set [[0, 0, 1, 1], [1, 1, 0, 0], [0, 1, 0, 1], [0, 1, 1, 0], [1, 0, 0, 1],
      [1, 0, 1, 0]]"
  shows "fst (run_schedule saveSummary_write e sched [Pending a, Pending b] st)
           = [Done (Inr ()), Done (Inr ())]"
    and "fst (run_schedule saveSummary_write_cb e sched [Pending a, Pending b] st)
           = [Done (Inr ()), Done (Inr ())]"
  using s
  by (auto simp: read_ok[OF ok] write_fst_ok[OF ok] saveSummary_write_def
      saveSummary_write_cb_def storage_ok_write[OF ok] Let_def)

section \<open>Properties of platform detection\<close>

lemma indexOf_from_sublist: "indexOf_from h p i \<noteq> - 1 \<longleftrightarrow> sublist p h"
proof (induction h arbitrary: i)
  case Nil
  then show ?case by auto
next
  case (Cons c cs)
  show ?case
  proof (cases "prefix p (c # cs)")
    case True
    then show ?thesis by (auto simp: sublist_Cons_right)
  next
    case False
    then show ?thesis using Cons.IH[of "Suc i"] by (auto simp: sublist_Cons_right)
  qed
qed

lemma includes_sublist: "includes_str h p \<longleftrightarrow> sublist p h"
  by (simp add: includes_str_def indexOf_def indexOf_from_sublist)

lemma pattern_loop_iff: "pattern_loop ps h \<longleftrightarrow> list_ex (\<lambda>p. sublist p h) ps"
  by (induction ps) (auto simp: indexOf_def indexOf_from_sublist)

lemma platform_loop_find:
  "platform_loop reg h = find (\<lambda>(k, cfg). host_matches h cfg) reg"
  by (induction reg h rule: platform_loop.induct) (auto simp: pattern_loop_iff host_matches_def)

lemma includes_str_eta: "includes_str h = (\<lambda>p. sublist p h)"
  by (rule ext) (simp add: includes_sublist)

lemma platform_loop_v0_find:
  "platform_loop_v0 reg h = find (\<lambda>(k, cfg). host_matches h cfg) reg"
  by (induction reg h rule: platform_loop_v0.induct) (auto simp: includes_str_eta host_matches_def)

lemma find_None_list_ex: "\<not> list_ex P xs \<Longrightarrow> find P xs = None"
  by (induction xs) auto

lemma detect_patterns:
  "detectPlatform ''chatgpt.com'' = Some (PLATFORMS ! 0)"
  "detectPlatform ''chat.openai.com'' = Some (PLATFORMS ! 0)"
  "detectPlatform ''claude.ai'' = Some (PLATFORMS ! 1)"
  "detectPlatform ''gemini.google.com'' = Some (PLATFORMS ! 2)"
  by (simp_all add: detectPlatform_def PLATFORMS_def indexOf_def)

lemma registered_cases:
  "registered PLATFORMS key p \<Longrightarrow>
     (key = ''chatgpt'' \<and> (p = ''chatgpt.com'' \<or> p = ''chat.openai.com''))
     \<or> (key = ''claude'' \<and> p = ''claude.ai'')
     \<or> (key = ''gemini'' \<and> p = ''gemini.google.com'')"
  by (auto simp: registered_def PLATFORMS_def)

lemma detect_registered:
  assumes "registered PLATFORMS key p"
  shows "\<exists>cfg. detectPlatform p = Some (key, cfg) \<and> (key, cfg) \<in> set PLATFORMS
      \<and> p \<in> set (hostPatterns cfg)"
  using registered_cases[OF assms]
  by (auto simp: detect_patterns) (simp_all add: PLATFORMS_def)

text \<open>
  Claim C6. \<^verbatim>\<open>detectPlatform\<close> answers with nothing for a hostname that contains no
  registered host pattern; in general it answers with the first configuration, in the order
  of registration, one of whose patterns occurs in the hostname as a substring. For every
  registered pattern, taken as the hostname, the answer is the configuration that registers
  it. The older domain \<open>chat.openai.com\<close> gives the configuration of \<open>chatgpt.com\<close>. Both variants
  agree on every hostname.
\<close>

theorem detectPlatform_first_match:
  "(\<not> list_ex (\<lambda>(k, cfg). host_matches h cfg) PLATFORMS \<longrightarrow>
      detectPlatform h = None \<and> detectPlatform_v0 h = None)
   \<and> detectPlatform h = find (\<lambda>(k, cfg). host_matches h cfg) PLATFORMS
   \<and> detectPlatform_v0 h = detectPlatform h
   \<and> (registered PLATFORMS key p \<longrightarrow>
        (\<exists>cfg. detectPlatform p = Some (key, cfg) \<and> (key, cfg) \<in> set PLATFORMS
           \<and> p \<in> set (hostPatterns cfg)))
   \<and> detectPlatform ''chat.openai.com'' = detectPlatform ''chatgpt.com''
   \<and> map_option fst (detectPlatform ''chatgpt.com'') = Some ''chatgpt''"
proof (intro conjI impI)
  assume n: "\<not> list_ex (\<lambda>(k, cfg). host_matches h cfg) PLATFORMS"
  show "detectPlatform h = None"
    using find_None_list_ex[OF n] by (simp add: detectPlatform_def platform_loop_find)
  show "detectPlatform_v0 h = None"
    using find_None_list_ex[OF n] by (simp add: detectPlatform_v0_def platform_loop_v0_find)
next
  show "detectPlatform h = find (\<lambda>(k, cfg). host_matches h cfg) PLATFORMS"
    by (simp add: detectPlatform_def platform_loop_find)
  show "detectPlatform_v0 h = detectPlatform h"
    by (simp add: detectPlatform_def detectPlatform_v0_def platform_loop_find platform_loop_v0_find)
next
  assume "registered PLATFORMS key p"
  then show "\<exists>cfg. detectPlatform p = Some (key, cfg) \<and> (key, cfg) \<in> set PLATFORMS
      \<and> p \<in> set (hostPatterns cfg)"
    by (rule detect_registered)
next
  show "detectPlatform ''chat.openai.com'' = detectPlatform ''chatgpt.com''"
    by (simp only: detect_patterns)
  show "map_option fst (detectPlatform ''chatgpt.com'') = Some ''chatgpt''"
    by (simp only: detect_patterns) (simp add: PLATFORMS_def)
qed

text \<open>An unknown host, the older ChatGPT domain and a subdomain.\<close>

lemma no_match_example:
  "\<not> list_ex (\<lambda>(k, cfg). host_matches ''example.com'' cfg) PLATFORMS"
  by (simp add: PLATFORMS_def host_matches_def flip: includes_sublist)
   (simp add: includes_str_def indexOf_def)

lemma registered_example: "registered PLATFORMS ''chatgpt'' ''chat.openai.com''"
  by (simp add: registered_def PLATFORMS_def)

theorem detectPlatform_first_match_witness:
  "\<not> list_ex (\<lambda>(k, cfg). host_matches ''example.com'' cfg) PLATFORMS
   \<and> detectPlatform ''example.com'' = None
   \<and> detectPlatform_v0 ''example.com'' = None
   \<and> registered PLATFORMS ''chatgpt'' ''chat.openai.com''
   \<and> map_option fst (detectPlatform ''chat.openai.com'') = Some ''chatgpt''
   \<and> map_option fst (detectPlatform_v0 ''www.chatgpt.com'') = Some ''chatgpt''"
proof -
  have w: "map_option fst (detectPlatform ''www.chatgpt.com'') = Some ''chatgpt''"
    by (simp add: detectPlatform_def PLATFORMS_def indexOf_def)
  show ?thesis
    using detectPlatform_first_match[of "''example.com''" "''chatgpt''" "''chat.openai.com''"]
      detectPlatform_first_match[of "''www.chatgpt.com''" "''chatgpt''" "''chat.openai.com''"]
      no_match_example registered_example w
    by auto
qed

section \<open>Properties of the sanitizers\<close>

text \<open>One unfolding of the matcher at a concatenation and at the two stars.\<close>

lemma star_unfold:
  "(q \<in> set (rx_match ic (Star a) pr s)) =
   (q = (pr, s) \<or> (\<exists>q1 q2. (q1, q2) \<in> set (rx_match ic a pr s) \<and> length q2 < length s
       \<and> q \<in> set (rx_match ic (Star a) q1 q2)))"
  by (subst rx_match.simps(8)) (auto simp del: rx_match.simps)

lemma lazy_star_unfold:
  "(q \<in> set (rx_match ic (LazyStar a) pr s)) =
   (q = (pr, s) \<or> (\<exists>q1 q2. (q1, q2) \<in> set (rx_match ic a pr s) \<and> length q2 < length s
       \<and> q \<in> set (rx_match ic (LazyStar a) q1 q2)))"
  by (subst rx_match.simps(9)) (auto simp del: rx_match.simps)

lemma seq_unfold:
  "(q \<in> set (rx_match ic (Seq a b) pr s)) =
   (\<exists>q1 q2. (q1, q2) \<in> set (rx_match ic a pr s) \<and> q \<in> set (rx_match ic b q1 q2))"
  by (subst rx_match.simps(7)) (auto simp del: rx_match.simps)

text \<open>Every position the matcher returns is a suffix of the input.\<close>

lemma rx_match_suffix:
  "(pr', s') \<in> set (rx_match ic r pr s) \<Longrightarrow> suffix s' s"
proof (induction ic r pr s arbitrary: pr' s' rule: rx_match.induct)
  case (7 ic a b pr s)
  from "7.prems" obtain q1 q2 where m: "(q1, q2) \<in> set (rx_match ic a pr s)"
    and n: "(pr', s') \<in> set (rx_match ic b q1 q2)"
    unfolding seq_unfold by blast
  from "7.IH"(1)[OF m] "7.IH"(2)[OF m refl n] show ?case
    by (rule suffix_order.trans[rotated])
next
  case (8 ic a pr s)
  from "8.prems" consider (stop) "(pr', s') = (pr, s)"
    | (go) q1 q2 where "(q1, q2) \<in> set (rx_match ic a pr s)" "length q2 < length s"
        "(pr', s') \<in> set (rx_match ic (Star a) q1 q2)"
    by (subst (asm) star_unfold) blast
  then show ?case
  proof cases
    case stop
    then show ?thesis by simp
  next
    case go
    have f: "(q1, q2) \<in> set (filter (\<lambda>(pr', s'). length s' < length s) (rx_match ic a pr s))"
      using go(1,2) by simp
    from "8.IH"(1)[OF go(1)] "8.IH"(2)[OF f refl go(3)] show ?thesis
      by (rule suffix_order.trans[rotated])
  qed
next
  case (9 ic a pr s)
  from "9.prems" consider (stop) "(pr', s') = (pr, s)"
    | (go) q1 q2 where "(q1, q2) \<in> set (rx_match ic a pr s)" "length q2 < length s"
        "(pr', s') \<in> set (rx_match ic (LazyStar a) q1 q2)"
    by (subst (asm) lazy_star_unfold) blast
  then show ?case
  proof cases
    case stop
    then show ?thesis by simp
  next
    case go
    have f: "(q1, q2) \<in> set (filter (\<lambda>(pr', s'). length s' < length s) (rx_match ic a pr s))"
      using go(1,2) by simp
    from "9.IH"(1)[OF go(1)] "9.IH"(2)[OF f refl go(3)] show ?thesis
      by (rule suffix_order.trans[rotated])
  qed
qed (auto split: list.splits if_splits simp: suffix_Cons Let_def)

lemma seq_nonempty:
  "rx_match ic (Seq a b) pr s \<noteq> [] \<Longrightarrow>
   \<exists>q1 q2. (q1, q2) \<in> set (rx_match ic a pr s) \<and> rx_match ic b q1 q2 \<noteq> []"
proof -
  assume "rx_match ic (Seq a b) pr s \<noteq> []"
  then obtain q where "q \<in> set (rx_match ic (Seq a b) pr s)"
    by (meson last_in_set)
  then obtain q1 q2 where "(q1, q2) \<in> set (rx_match ic a pr s)" "q \<in> set (rx_match ic b q1 q2)"
    unfolding seq_unfold by blast
  then show ?thesis by force
qed

text \<open>An expression that has to read \<open>c\<close> matches nowhere in a text without \<open>c\<close>, and
  replacing its matches leaves such a text as it is.\<close>

lemma must_read_sound:
  assumes plain: "\<And>x. same_char ic c x \<Longrightarrow> x = c"
  shows "must_read c r \<Longrightarrow> rx_match ic r pr s \<noteq> [] \<Longrightarrow> c \<in> set s"
proof (induction r arbitrary: pr s)
  case (Chr d)
  then obtain x xs where "s = x # xs" "same_char ic c x"
    by (auto split: list.splits if_splits)
  then show ?case using plain[of x] by simp
next
  case (Seq a b)
  from seq_nonempty[OF Seq.prems(2)] obtain q1 q2
    where m: "(q1, q2) \<in> set (rx_match ic a pr s)" and n: "rx_match ic b q1 q2 \<noteq> []"
    by blast
  show ?case
  proof (cases "must_read c a")
    case True
    have "rx_match ic a pr s \<noteq> []" using m by auto
    from Seq.IH(1)[OF True this] show ?thesis .
  next
    case False
    then have "must_read c b" using Seq.prems(1) by simp
    from Seq.IH(2)[OF this n] have "c \<in> set q2" .
    moreover have "suffix q2 s" using rx_match_suffix[OF m] .
    ultimately show ?thesis by (auto simp: suffix_def)
  qed
qed (simp_all del: rx_match.simps)

lemma replace_from_id:
  "(\<And>pr' s'. suffix s' s \<Longrightarrow> rx_match ic r pr' s' = []) \<Longrightarrow> replace_from ic r pr s = s"
proof (induction s arbitrary: pr)
  case Nil
  then show ?case by simp
next
  case (Cons x xs)
  have here: "rx_match ic r pr (x # xs) = []" using Cons.prems by simp
  have "replace_from ic r (Some x) xs = xs"
    by (rule Cons.IH) (simp add: Cons.prems suffix_Cons)
  then show ?case using here by simp
qed

lemma replace_all_without:
  assumes plain: "\<And>x. same_char ic c x \<Longrightarrow> x = c" and m: "must_read c r" and n: "c \<notin> set s"
  shows "replace_all ic r s = s"
  unfolding replace_all_def
proof (rule replace_from_id)
  fix pr' s'
  assume "suffix s' s"
  then have "c \<notin> set s'" using n by (auto simp: suffix_def)
  then show "rx_match ic r pr' s' = []"
    using must_read_sound[OF plain m, where pr = pr' and s = s'] by blast
qed

lemma ascii_upper_cases:
  "ascii_upper x = x \<or> ascii_upper x \<in> set ''ABCDEFGHIJKLMNOPQRSTUVWXYZ''"
proof (cases "map_of (zip ''abcdefghijklmnopqrstuvwxyz'' ''ABCDEFGHIJKLMNOPQRSTUVWXYZ'') x")
  case None
  then show ?thesis unfolding ascii_upper_def by (simp only: option.case simp_thms)
next
  case (Some u)
  then have "(x, u) \<in> set (zip ''abcdefghijklmnopqrstuvwxyz'' ''ABCDEFGHIJKLMNOPQRSTUVWXYZ'')"
    by (rule map_of_SomeD)
  then have "u \<in> set ''ABCDEFGHIJKLMNOPQRSTUVWXYZ''" by (rule set_zip_rightD)
  moreover have "ascii_upper x = u" unfolding ascii_upper_def Some by (simp only: option.case)
  ultimately show ?thesis by (simp only: simp_thms)
qed

lemma ascii_upper_fragment_chars:
  "ascii_upper CHR ''<'' = CHR ''<''" "ascii_upper CHR '':'' = CHR '':''"
  "ascii_upper CHR ''='' = CHR ''=''"
  by (simp_all add: ascii_upper_def)

lemma ascii_upper_fragment: "c \<in> fragment_chars \<Longrightarrow> ascii_upper c = c"
  unfolding fragment_chars_def using ascii_upper_fragment_chars by blast

lemma same_char_plain:
  assumes c: "c \<in> fragment_chars" and m: "same_char ic c x"
  shows "x = c"
proof (cases ic)
  case False
  then show ?thesis using m by (simp add: same_char_def)
next
  case True
  then have e: "ascii_upper x = c" using m ascii_upper_fragment[OF c] by (simp add: same_char_def)
  have "c \<notin> set ''ABCDEFGHIJKLMNOPQRSTUVWXYZ''"
    using c unfolding fragment_chars_def by auto
  then show ?thesis using ascii_upper_cases[of x] e by metis
qed

text \<open>Trimming twice is trimming once.\<close>

lemma dropWhile_rev_dropWhile:
  "dropWhile P (rev (dropWhile P (rev (dropWhile P s)))) = rev (dropWhile P (rev (dropWhile P s)))"
proof -
  let ?t = "dropWhile P s"
  let ?v = "dropWhile P (rev ?t)"
  show ?thesis
  proof (cases "?v = []")
    case True
    show ?thesis by (simp only: True rev.simps(1) dropWhile.simps(1))
  next
    case False
    have split: "rev ?t = takeWhile P (rev ?t) @ ?v" by simp
    have "last (rev ?t) = last ?v"
      by (subst split) (simp only: last_appendR[OF False])
    moreover have ne: "?t \<noteq> []"
    proof
      assume e: "?t = []"
      have "?v = []" by (simp only: e rev.simps(1) dropWhile.simps(1))
      with False show False by contradiction
    qed
    ultimately have "hd ?t = last ?v" by (simp add: last_rev)
    moreover have "\<not> P (hd ?t)" using ne by (rule hd_dropWhile)
    ultimately have "\<not> P (hd (rev ?v))" using False by (simp add: hd_rev)
    then show ?thesis by (simp add: dropWhile_eq_self_iff)
  qed
qed

lemma trim_idem: "trim (trim s) = trim s"
  unfolding trim_def
  by (simp only: dropWhile_rev_dropWhile rev_rev_ident dropWhile_idem)

lemma set_trim: "set (trim s) \<subseteq> set s"
proof -
  have "set (trim s) \<subseteq> set (dropWhile is_space s)"
    unfolding trim_def using set_dropWhileD[of _ is_space "rev (dropWhile is_space s)"] by auto
  also have "\<dots> \<subseteq> set s" using set_dropWhileD[of _ is_space s] by auto
  finally show ?thesis .
qed

lemma must_read_table:
  "must_read CHR ''<'' script_block" "must_read CHR ''<'' style_block"
  "must_read CHR ''<'' any_tag" "must_read CHR '':'' script_uri"
  "must_read CHR ''='' handler_attr"
  "must_read CHR ''<'' (block_v0 ''<script'' ''</script>'')"
  "must_read CHR ''<'' (block_v0 ''<style'' ''</style>'')"
  by (simp_all add: script_block_def style_block_def any_tag_def script_uri_def handler_attr_def
      block_v0_def)

lemma fragment_chars_mem:
  "CHR ''<'' \<in> fragment_chars" "CHR '':'' \<in> fragment_chars" "CHR ''='' \<in> fragment_chars"
  by (simp_all add: fragment_chars_def)

lemma replace_all_fragment_free:
  assumes "c \<in> fragment_chars" "must_read c r" "set s \<inter> fragment_chars = {}"
  shows "replace_all ic r s = s"
proof (rule replace_all_without[where c = c])
  show "\<And>x. same_char ic c x \<Longrightarrow> x = c" using same_char_plain[OF assms(1)] by blast
  show "must_read c r" by (rule assms(2))
  show "c \<notin> set s" using assms(1,3) by auto
qed

lemma sanitize_str_fragment_free:
  assumes "set s \<inter> fragment_chars = {}"
  shows "sanitize_str s = trim s"
  unfolding sanitize_str_def
  by (simp only: replace_all_fragment_free[OF fragment_chars_mem(1) must_read_table(1) assms]
      replace_all_fragment_free[OF fragment_chars_mem(1) must_read_table(2) assms]
      replace_all_fragment_free[OF fragment_chars_mem(1) must_read_table(3) assms]
      replace_all_fragment_free[OF fragment_chars_mem(2) must_read_table(4) assms]
      replace_all_fragment_free[OF fragment_chars_mem(3) must_read_table(5) assms])

lemma sanitizeText_str_fragment_free:
  assumes "set s \<inter> fragment_chars = {}"
  shows "sanitizeText_str s = trim s"
  unfolding sanitizeText_str_def
  by (simp only: replace_all_fragment_free[OF fragment_chars_mem(1) must_read_table(6) assms]
      replace_all_fragment_free[OF fragment_chars_mem(1) must_read_table(7) assms]
      replace_all_fragment_free[OF fragment_chars_mem(1) must_read_table(3) assms]
      replace_all_fragment_free[OF fragment_chars_mem(2) must_read_table(4) assms]
      replace_all_fragment_free[OF fragment_chars_mem(3) must_read_table(5) assms])

lemma sanitize_str_trimmed: "trim (sanitize_str x) = sanitize_str x"
  unfolding sanitize_str_def by (rule trim_idem)

lemma sanitizeText_str_trimmed: "trim (sanitizeText_str x) = sanitizeText_str x"
  unfolding sanitizeText_str_def by (rule trim_idem)

lemmas sanitize_eval = sanitize_def sanitizeText_def falsy_def sanitize_str_def sanitizeText_str_def
  replace_all_def trim_def script_block_def style_block_def any_tag_def script_uri_def
  handler_attr_def block_v0_def Plus_def same_char_def ascii_upper_def is_space_def is_word_def

lemma sanitize_example:
  "sanitize (JString ''<script>x</script>hello'') = Inr ''hello''"
  by (simp add: sanitize_eval)

lemma sanitizeText_example:
  "sanitizeText (JString ''<script>x</script>hello'') = Inr ''hello''"
  by (simp add: sanitize_eval)

lemma sanitize_nested:
  "sanitize (JString ''javajavascript:script:'') = Inr ''javascript:''"
  "sanitize (JString ''javascript:'') = Inr []"
  by (simp_all add: sanitize_eval)

lemma sanitizeText_nested:
  "sanitizeText (JString ''javajavascript:script:'') = Inr ''javascript:''"
  "sanitizeText (JString ''javascript:'') = Inr []"
  by (simp_all add: sanitize_eval)

text \<open>The part of the input a match reads holds no character the expression avoids.\<close>

lemma avoids_sound:
  "avoids ic c r \<Longrightarrow> (pr', s') \<in> set (rx_match ic r pr s) \<Longrightarrow> \<exists>u. s = u @ s' \<and> c \<notin> set u"
proof (induction ic r pr s arbitrary: pr' s' rule: rx_match.induct)
  case (7 ic a b pr s)
  from "7.prems"(2) obtain q1 q2 where m: "(q1, q2) \<in> set (rx_match ic a pr s)"
    and n: "(pr', s') \<in> set (rx_match ic b q1 q2)"
    unfolding seq_unfold by blast
  from "7.prems"(1) have aa: "avoids ic c a" and ab: "avoids ic c b" by simp_all
  from "7.IH"(1)[OF aa m] obtain u where u: "s = u @ q2" "c \<notin> set u" by blast
  from "7.IH"(2)[OF m refl ab n] obtain v where v: "q2 = v @ s'" "c \<notin> set v" by blast
  have "s = (u @ v) @ s'" "c \<notin> set (u @ v)" using u v by simp_all
  then show ?case by blast
next
  case (8 ic a pr s)
  from "8.prems"(1) have aa: "avoids ic c a" by simp
  from "8.prems"(2) consider (stop) "(pr', s') = (pr, s)"
    | (go) q1 q2 where "(q1, q2) \<in> set (rx_match ic a pr s)" "length q2 < length s"
        "(pr', s') \<in> set (rx_match ic (Star a) q1 q2)"
    by (subst (asm) star_unfold) blast
  then show ?case
  proof cases
    case stop
    then have "s = [] @ s'" "c \<notin> set []" by simp_all
    then show ?thesis by blast
  next
    case go
    have f: "(q1, q2) \<in> set (filter (\<lambda>(pr', s'). length s' < length s) (rx_match ic a pr s))"
      using go(1,2) by simp
    from "8.IH"(1)[OF aa go(1)] obtain u where u: "s = u @ q2" "c \<notin> set u" by blast
    from "8.IH"(2)[OF f refl "8.prems"(1) go(3)] obtain v where v: "q2 = v @ s'" "c \<notin> set v"
      by blast
    have "s = (u @ v) @ s'" "c \<notin> set (u @ v)" using u v by simp_all
    then show ?thesis by blast
  qed
next
  case (9 ic a pr s)
  from "9.prems"(1) have aa: "avoids ic c a" by simp
  from "9.prems"(2) consider (stop) "(pr', s') = (pr, s)"
    | (go) q1 q2 where "(q1, q2) \<in> set (rx_match ic a pr s)" "length q2 < length s"
        "(pr', s') \<in> set (rx_match ic (LazyStar a) q1 q2)"
    by (subst (asm) lazy_star_unfold) blast
  then show ?case
  proof cases
    case stop
    then have "s = [] @ s'" "c \<notin> set []" by simp_all
    then show ?thesis by blast
  next
    case go
    have f: "(q1, q2) \<in> set (filter (\<lambda>(pr', s'). length s' < length s) (rx_match ic a pr s))"
      using go(1,2) by simp
    from "9.IH"(1)[OF aa go(1)] obtain u where u: "s = u @ q2" "c \<notin> set u" by blast
    from "9.IH"(2)[OF f refl "9.prems"(1) go(3)] obtain v where v: "q2 = v @ s'" "c \<notin> set v"
      by blast
    have "s = (u @ v) @ s'" "c \<notin> set (u @ v)" using u v by simp_all
    then show ?thesis by blast
  qed
next
  case (2 ic d pr s)
  then show ?case by (cases s) (auto split: if_splits)
next
  case (4 ic pr s)
  then show ?case by (cases s) (auto split: if_splits)
next
  case (5 ic pr s)
  then show ?case by (cases s) (auto split: if_splits)
qed (auto split: if_splits simp: Let_def)

text \<open>Replacing adds no character; a text without tags stays so under taking a suffix or a
  prefix.\<close>

lemma set_replace_from: "set (replace_from ic r pr s) \<subseteq> set s"
proof (induction ic r pr s rule: replace_from.induct)
  case (1 ic r pr)
  then show ?case by simp
next
  case (2 ic r pr x xs)
  show ?case
  proof (cases "rx_match ic r pr (x # xs)")
    case Nil
    then show ?thesis using "2.IH"(1) by auto
  next
    case (Cons q alternatives)
    obtain pr' s' where q: "q = (pr', s')" by (cases q)
    show ?thesis
    proof (cases "length s' < length (x # xs)")
      case True
      have "(pr', s') \<in> set (rx_match ic r pr (x # xs))" using Cons q by simp
      then have "set s' \<subseteq> set (x # xs)" using rx_match_suffix set_mono_suffix by blast
      moreover have "set (replace_from ic r pr' s') \<subseteq> set s'"
        using "2.IH"(2)[OF Cons q[symmetric] True] .
      ultimately show ?thesis using Cons q True by auto
    next
      case False
      then show ?thesis using Cons q "2.IH"(3)[OF Cons q[symmetric] False] by auto
    qed
  qed
qed

lemma tag_free_suffix: "tag_free (u @ s) \<Longrightarrow> tag_free s"
  by (induction u) simp_all

lemma tag_free_prefix: "tag_free (p @ q) \<Longrightarrow> tag_free p"
proof (induction p)
  case Nil
  then show ?case by simp
next
  case (Cons x p)
  then have "tag_free p" by simp
  moreover have "x \<noteq> CHR ''<'' \<or> p = [] \<or> hd p = CHR ''>'' \<or> CHR ''>'' \<notin> set p"
    using Cons.prems by (cases p) auto
  ultimately show ?case by simp
qed

text \<open>Where the tag expression matches: at a \<^verbatim>\<open><\<close> whose next character is not \<^verbatim>\<open>>\<close> and
  after which a \<^verbatim>\<open>>\<close> follows; and there it does match.\<close>

lemma chr_unfold:
  "(q \<in> set (rx_match ic (Chr c) pr s)) = (\<exists>x xs. s = x # xs \<and> same_char ic c x \<and> q = (Some x, xs))"
  by (cases s) auto

lemma notchr_unfold:
  "(q \<in> set (rx_match ic (NotChr c) pr s)) =
   (\<exists>x xs. s = x # xs \<and> \<not> same_char ic c x \<and> q = (Some x, xs))"
  by (cases s) auto

lemma star_not_gt_reaches:
  "CHR ''>'' \<in> set ys \<Longrightarrow>
   \<exists>pr' zs. (pr', CHR ''>'' # zs) \<in> set (rx_match False (Star (NotChr CHR ''>'')) pr ys)"
proof (induction ys arbitrary: pr)
  case Nil
  then show ?case by simp
next
  case (Cons y ys)
  show ?case
  proof (cases "y = CHR ''>''")
    case True
    have "(pr, y # ys) \<in> set (rx_match False (Star (NotChr CHR ''>'')) pr (y # ys))"
      by (subst star_unfold) blast
    then show ?thesis using True by blast
  next
    case False
    then have "CHR ''>'' \<in> set ys" using Cons.prems by simp
    from Cons.IH[OF this, of "Some y"] obtain pr' zs
      where r: "(pr', CHR ''>'' # zs) \<in> set (rx_match False (Star (NotChr CHR ''>'')) (Some y) ys)"
      by blast
    have m: "(Some y, ys) \<in> set (rx_match False (NotChr CHR ''>'') pr (y # ys))"
      using False by (simp add: same_char_def)
    have "(pr', CHR ''>'' # zs) \<in> set (rx_match False (Star (NotChr CHR ''>'')) pr (y # ys))"
    proof (subst star_unfold, intro disjI2 exI conjI)
      show "(Some y, ys) \<in> set (rx_match False (NotChr CHR ''>'') pr (y # ys))" by (rule m)
      show "length ys < length (y # ys)" by simp
      show "(pr', CHR ''>'' # zs) \<in> set (rx_match False (Star (NotChr CHR ''>'')) (Some y) ys)"
        by (rule r)
    qed
    then show ?thesis by blast
  qed
qed

lemma any_tag_member:
  assumes "y \<noteq> CHR ''>''" "CHR ''>'' \<in> set ys"
  shows "\<exists>q. q \<in> set (rx_match False any_tag pr (CHR ''<'' # y # ys))"
proof -
  from star_not_gt_reaches[OF assms(2), of "Some y"] obtain pr' zs
    where r: "(pr', CHR ''>'' # zs) \<in> set (rx_match False (Star (NotChr CHR ''>'')) (Some y) ys)"
    by blast
  have 1: "(Some CHR ''<'', y # ys) \<in> set (rx_match False (Chr CHR ''<'') pr (CHR ''<'' # y # ys))"
    by (simp add: same_char_def)
  have 2: "(Some y, ys) \<in> set (rx_match False (NotChr CHR ''>'') (Some CHR ''<'') (y # ys))"
    using assms(1) by (simp add: same_char_def)
  have 3: "(pr', CHR ''>'' # zs) \<in> set (rx_match False (Plus (NotChr CHR ''>'')) (Some CHR ''<'') (y # ys))"
    unfolding Plus_def seq_unfold using 2 r by blast
  have 4: "(Some CHR ''>'', zs) \<in> set (rx_match False (Chr CHR ''>'') pr' (CHR ''>'' # zs))"
    by (simp add: same_char_def)
  have "(Some CHR ''>'', zs) \<in> set (rx_match False any_tag pr (CHR ''<'' # y # ys))"
    unfolding any_tag_def seq_unfold using 1 3 4 by blast
  then show ?thesis by blast
qed

lemma any_tag_proper:
  assumes "(pr', s') \<in> set (rx_match False any_tag pr s)"
  shows "length s' < length s"
proof -
  from assms obtain q1 q2 where a: "(q1, q2) \<in> set (rx_match False (Chr CHR ''<'') pr s)"
    and b: "(pr', s') \<in> set (rx_match False (Seq (Plus (NotChr CHR ''>'')) (Chr CHR ''>'')) q1 q2)"
    unfolding any_tag_def seq_unfold by blast
  from a obtain x where "s = x # q2" unfolding chr_unfold by blast
  moreover have "suffix s' q2" using rx_match_suffix[OF b] .
  ultimately show ?thesis by (auto dest: suffix_length_le)
qed

lemma any_tag_shape:
  assumes "rx_match False any_tag pr s \<noteq> []"
  shows "\<exists>y ys. s = CHR ''<'' # y # ys \<and> y \<noteq> CHR ''>'' \<and> CHR ''>'' \<in> set ys"
proof -
  from assms obtain q where "q \<in> set (rx_match False any_tag pr s)" by (meson last_in_set)
  then obtain a1 a2 b1 b2 c1 c2
    where a: "(a1, a2) \<in> set (rx_match False (Chr CHR ''<'') pr s)"
      and b: "(b1, b2) \<in> set (rx_match False (NotChr CHR ''>'') a1 a2)"
      and c: "(c1, c2) \<in> set (rx_match False (Star (NotChr CHR ''>'')) b1 b2)"
      and d: "q \<in> set (rx_match False (Chr CHR ''>'') c1 c2)"
    unfolding any_tag_def Plus_def seq_unfold by blast
  from a have s: "s = CHR ''<'' # a2" unfolding chr_unfold by (auto simp: same_char_def)
  from b obtain y where y: "a2 = y # b2" "y \<noteq> CHR ''>''"
    unfolding notchr_unfold by (auto simp: same_char_def)
  from d obtain zs where "c2 = CHR ''>'' # zs" unfolding chr_unfold by (auto simp: same_char_def)
  moreover have "suffix c2 b2" using rx_match_suffix[OF c] .
  ultimately have "CHR ''>'' \<in> set b2" by (auto simp: suffix_def)
  then show ?thesis using s y by blast
qed

lemma any_tag_not_at_gt: "rx_match False any_tag pr (CHR ''>'' # zs) = []"
  using any_tag_shape[of pr "CHR ''>'' # zs"] by auto

text \<open>Removing the tags leaves a text without tags, and the later replacements and the
  trimming keep it so, since they never remove a \<^verbatim>\<open>>\<close>.\<close>

lemma replace_from_keeps:
  assumes "\<And>pr' s'. (pr', s') \<in> set (rx_match ic r pr (x # xs)) \<Longrightarrow> \<not> length s' < length (x # xs)"
  shows "replace_from ic r pr (x # xs) = x # replace_from ic r (Some x) xs"
proof (cases "rx_match ic r pr (x # xs)")
  case Nil
  then show ?thesis by simp
next
  case (Cons q alternatives)
  obtain pr' s' where q: "q = (pr', s')" by (cases q)
  have "\<not> length s' < length (x # xs)" using assms[of pr' s'] Cons q by simp
  then show ?thesis using Cons q by simp
qed

lemma replace_from_shorter:
  assumes "rx_match ic r pr (x # xs) = (pr', s') # alternatives" "length s' < length (x # xs)"
  shows "replace_from ic r pr (x # xs) = replace_from ic r pr' s'"
  using assms by simp

lemma kept_head:
  assumes c: "xs = [] \<or> hd xs = CHR ''>'' \<or> CHR ''>'' \<notin> set xs"
    and keep: "\<And>pr zs. replace_from ic r pr (CHR ''>'' # zs)
        = CHR ''>'' # replace_from ic r (Some CHR ''>'') zs"
  shows "replace_from ic r pr' xs = [] \<or> hd (replace_from ic r pr' xs) = CHR ''>''
      \<or> CHR ''>'' \<notin> set (replace_from ic r pr' xs)"
proof (cases xs)
  case Nil
  then show ?thesis by simp
next
  case (Cons y ys)
  show ?thesis
  proof (cases "y = CHR ''>''")
    case True
    then show ?thesis using Cons keep[of pr' ys] by simp
  next
    case False
    then have "CHR ''>'' \<notin> set xs" using c Cons by auto
    then show ?thesis using set_replace_from[of ic r pr' xs] by blast
  qed
qed

lemma any_tag_keeps_gt:
  "replace_from False any_tag pr (CHR ''>'' # zs) = CHR ''>'' # replace_from False any_tag (Some CHR ''>'') zs"
  by (rule replace_from_keeps) (simp add: any_tag_not_at_gt)

lemma replace_any_tag_free: "tag_free (replace_from False any_tag pr s)"
proof (induction "length s" arbitrary: s pr rule: less_induct)
  case less
  show ?case
  proof (cases s)
    case Nil
    then show ?thesis by simp
  next
    case (Cons x xs)
    show ?thesis
    proof (cases "rx_match False any_tag pr (x # xs)")
      case Nil
      have rest: "tag_free (replace_from False any_tag (Some x) xs)"
        by (rule less) (simp add: Cons)
      have c: "x \<noteq> CHR ''<'' \<or> xs = [] \<or> hd xs = CHR ''>'' \<or> CHR ''>'' \<notin> set xs"
      proof (cases "x = CHR ''<''")
        case False
        then show ?thesis by simp
      next
        case True
        show ?thesis
        proof (cases xs)
          case Nil
          then show ?thesis by simp
        next
          case (Cons y ys)
          have "y = CHR ''>'' \<or> CHR ''>'' \<notin> set ys"
            using any_tag_member[of y ys pr] \<open>rx_match False any_tag pr (x # xs) = []\<close> True Cons
            by auto
          then show ?thesis using Cons by auto
        qed
      qed
      have "x \<noteq> CHR ''<'' \<or> replace_from False any_tag (Some x) xs = []
          \<or> hd (replace_from False any_tag (Some x) xs) = CHR ''>''
          \<or> CHR ''>'' \<notin> set (replace_from False any_tag (Some x) xs)"
        using c kept_head[of xs False any_tag "Some x", OF _ any_tag_keeps_gt] by blast
      then show ?thesis using rest Nil Cons by simp
    next
      case (Cons q alternatives)
      obtain pr' s' where q: "q = (pr', s')" by (cases q)
      have "(pr', s') \<in> set (rx_match False any_tag pr (x # xs))" using Cons q by simp
      then have sh: "length s' < length (x # xs)" by (rule any_tag_proper)
      have "tag_free (replace_from False any_tag pr' s')"
        by (rule less) (use sh \<open>s = x # xs\<close> in simp)
      then show ?thesis
        using replace_from_shorter[OF Cons[unfolded q] sh] \<open>s = x # xs\<close> by simp
    qed
  qed
qed

lemma avoids_keeps_gt:
  assumes "avoids ic CHR ''>'' r"
  shows "replace_from ic r pr (CHR ''>'' # zs) = CHR ''>'' # replace_from ic r (Some CHR ''>'') zs"
proof (rule replace_from_keeps)
  fix pr' s'
  assume "(pr', s') \<in> set (rx_match ic r pr (CHR ''>'' # zs))"
  from avoids_sound[OF assms this] obtain u where u: "CHR ''>'' # zs = u @ s'" "CHR ''>'' \<notin> set u"
    by blast
  then have "u = []" by (cases u) auto
  then show "\<not> length s' < length (CHR ''>'' # zs)" using u by simp
qed

lemma replace_keeps_tag_free:
  assumes av: "avoids ic CHR ''>'' r"
  shows "tag_free s \<Longrightarrow> tag_free (replace_from ic r pr s)"
proof (induction "length s" arbitrary: s pr rule: less_induct)
  case less
  show ?case
  proof (cases s)
    case Nil
    then show ?thesis by simp
  next
    case (Cons x xs)
    from less.prems Cons have txs: "tag_free xs"
      and c: "x \<noteq> CHR ''<'' \<or> xs = [] \<or> hd xs = CHR ''>'' \<or> CHR ''>'' \<notin> set xs"
      by simp_all
    have rest: "tag_free (replace_from ic r (Some x) xs)"
      by (rule less(1)) (simp_all add: Cons txs)
    have kept: "tag_free (x # replace_from ic r (Some x) xs)"
      using rest c kept_head[of xs ic r "Some x", OF _ avoids_keeps_gt[OF av]] by auto
    show ?thesis
    proof (cases "rx_match ic r pr (x # xs)")
      case Nil
      then show ?thesis using kept Cons by simp
    next
      case (Cons q alternatives)
      obtain pr' s' where q: "q = (pr', s')" by (cases q)
      show ?thesis
      proof (cases "length s' < length (x # xs)")
        case False
        then show ?thesis using kept Cons q \<open>s = x # xs\<close> by simp
      next
        case True
        have "(pr', s') \<in> set (rx_match ic r pr (x # xs))" using Cons q by simp
        then have "suffix s' s" using rx_match_suffix \<open>s = x # xs\<close> by blast
        then have "tag_free s'" using less.prems tag_free_suffix by (auto simp: suffix_def)
        then have "tag_free (replace_from ic r pr' s')"
          by (rule less(1)[rotated]) (use True \<open>s = x # xs\<close> in simp)
        then show ?thesis
          using replace_from_shorter[OF Cons[unfolded q] True] \<open>s = x # xs\<close> by simp
      qed
    qed
  qed
qed

lemma trim_keeps_tag_free: "tag_free s \<Longrightarrow> tag_free (trim s)"
proof -
  assume t: "tag_free s"
  let ?t = "dropWhile is_space s"
  have "s = takeWhile is_space s @ ?t" by simp
  then have tt: "tag_free ?t" using t tag_free_suffix by metis
  have "rev ?t = takeWhile is_space (rev ?t) @ dropWhile is_space (rev ?t)" by simp
  then have "?t = rev (dropWhile is_space (rev ?t)) @ rev (takeWhile is_space (rev ?t))"
    by (metis rev_append rev_rev_ident)
  then have "tag_free (rev (dropWhile is_space (rev ?t)))" using tt tag_free_prefix by metis
  then show ?thesis by (simp add: trim_def)
qed

lemma tag_free_no_match: "tag_free s \<Longrightarrow> \<not> matches_in False any_tag pr s"
proof (induction s arbitrary: pr)
  case Nil
  then show ?case using any_tag_shape[of pr "[]"] by auto
next
  case (Cons x xs)
  have "rx_match False any_tag pr (x # xs) = []"
  proof (rule ccontr)
    assume "rx_match False any_tag pr (x # xs) \<noteq> []"
    from any_tag_shape[OF this] obtain y ys
      where "x # xs = CHR ''<'' # y # ys" "y \<noteq> CHR ''>''" "CHR ''>'' \<in> set ys" by blast
    then show False using Cons.prems by auto
  qed
  moreover have "\<not> matches_in False any_tag (Some x) xs" using Cons by simp
  ultimately show ?case by simp
qed

lemma avoids_gt:
  "avoids True CHR ''>'' script_uri" "avoids True CHR ''>'' handler_attr"
  by (simp_all add: script_uri_def handler_attr_def Plus_def same_char_def ascii_upper_def
      is_word_def is_space_def)

lemma sanitize_str_tag_free: "tag_free (sanitize_str x)"
  unfolding sanitize_str_def replace_all_def
  by (intro trim_keeps_tag_free replace_keeps_tag_free avoids_gt replace_any_tag_free)

lemma sanitizeText_str_tag_free: "tag_free (sanitizeText_str x)"
  unfolding sanitizeText_str_def replace_all_def
  by (intro trim_keeps_tag_free replace_keeps_tag_free avoids_gt replace_any_tag_free)

lemma sanitize_strips_tags:
  "\<not> contains_match False any_tag (sanitize_str x)"
  "\<not> contains_match False any_tag (sanitizeText_str x)"
  unfolding contains_match_def
  by (rule tag_free_no_match[OF sanitize_str_tag_free],
      rule tag_free_no_match[OF sanitizeText_str_tag_free])

text \<open>A script or style block begins with a tag, so a text without tags holds none.\<close>

lemma same_char_gt: "same_char ic CHR ''>'' x \<Longrightarrow> x = CHR ''>''"
proof (cases ic)
  case False
  assume "same_char ic CHR ''>'' x"
  then show ?thesis using False by (simp add: same_char_def)
next
  case True
  assume "same_char ic CHR ''>'' x"
  then have e: "ascii_upper x = CHR ''>''" using True by (simp add: same_char_def ascii_upper_def)
  have "CHR ''>'' \<notin> set ''ABCDEFGHIJKLMNOPQRSTUVWXYZ''" by simp
  then show ?thesis using ascii_upper_cases[of x] e by metis
qed

lemma letter_not_gt: "same_char ic CHR ''s'' y \<Longrightarrow> y \<noteq> CHR ''>''"
  by (auto simp: same_char_def ascii_upper_def split: if_splits)

lemma block_shape:
  assumes op: "opening = CHR ''<'' # CHR ''s'' # w" and rd: "must_read CHR ''>'' tl_rx"
    and m: "rx_match ic (Seq (rx_lit opening) tl_rx) pr s \<noteq> []"
  shows "\<exists>y ys. s = CHR ''<'' # y # ys \<and> y \<noteq> CHR ''>'' \<and> CHR ''>'' \<in> set ys"
proof -
  from seq_nonempty[OF m] obtain q1 q2
    where o: "(q1, q2) \<in> set (rx_match ic (rx_lit opening) pr s)" and b: "rx_match ic tl_rx q1 q2 \<noteq> []"
    by blast
  from o obtain a1 a2 b1 b2
    where a: "(a1, a2) \<in> set (rx_match ic (Chr CHR ''<'') pr s)"
      and c: "(b1, b2) \<in> set (rx_match ic (Chr CHR ''s'') a1 a2)"
      and d: "(q1, q2) \<in> set (rx_match ic (rx_lit w) b1 b2)"
    unfolding op rx_lit.simps seq_unfold by blast
  from a obtain x where x: "s = x # a2" "same_char ic CHR ''<'' x" unfolding chr_unfold by blast
  from c obtain y where y: "a2 = y # b2" "same_char ic CHR ''s'' y" unfolding chr_unfold by blast
  have "x = CHR ''<''" using same_char_plain[OF fragment_chars_mem(1) x(2)] .
  moreover have "y \<noteq> CHR ''>''" using letter_not_gt[OF y(2)] .
  moreover have "CHR ''>'' \<in> set q2"
    by (rule must_read_sound[OF _ rd b]) (rule same_char_gt)
  moreover have "suffix q2 b2" using rx_match_suffix[OF d] .
  ultimately show ?thesis using x(1) y(1) by (auto simp: suffix_def)
qed

lemma tag_free_no_shaped_match:
  assumes shape: "\<And>pr s. rx_match ic r pr s \<noteq> [] \<Longrightarrow>
      \<exists>y ys. s = CHR ''<'' # y # ys \<and> y \<noteq> CHR ''>'' \<and> CHR ''>'' \<in> set ys"
  shows "tag_free s \<Longrightarrow> \<not> matches_in ic r pr s"
proof (induction s arbitrary: pr)
  case Nil
  then show ?case using shape[of pr "[]"] by auto
next
  case (Cons x xs)
  have "rx_match ic r pr (x # xs) = []"
  proof (rule ccontr)
    assume "rx_match ic r pr (x # xs) \<noteq> []"
    from shape[OF this] obtain y ys
      where "x # xs = CHR ''<'' # y # ys" "y \<noteq> CHR ''>''" "CHR ''>'' \<in> set ys" by blast
    then show False using Cons.prems by auto
  qed
  moreover have "\<not> matches_in ic r (Some x) xs" using Cons by simp
  ultimately show ?case by simp
qed

lemma block_shapes:
  "rx_match ic script_block pr s \<noteq> [] \<Longrightarrow>
     \<exists>y ys. s = CHR ''<'' # y # ys \<and> y \<noteq> CHR ''>'' \<and> CHR ''>'' \<in> set ys"
  "rx_match ic style_block pr s \<noteq> [] \<Longrightarrow>
     \<exists>y ys. s = CHR ''<'' # y # ys \<and> y \<noteq> CHR ''>'' \<and> CHR ''>'' \<in> set ys"
  "rx_match ic (block_v0 ''<script'' ''</script>'') pr s \<noteq> [] \<Longrightarrow>
     \<exists>y ys. s = CHR ''<'' # y # ys \<and> y \<noteq> CHR ''>'' \<and> CHR ''>'' \<in> set ys"
  "rx_match ic (block_v0 ''<style'' ''</style>'') pr s \<noteq> [] \<Longrightarrow>
     \<exists>y ys. s = CHR ''<'' # y # ys \<and> y \<noteq> CHR ''>'' \<and> CHR ''>'' \<in> set ys"
  unfolding script_block_def style_block_def block_v0_def
  by (erule block_shape[rotated 2]; simp)+

lemma tag_free_no_blocks:
  assumes "tag_free s"
  shows "\<not> contains_match ic script_block s" "\<not> contains_match ic style_block s"
    "\<not> contains_match ic (block_v0 ''<script'' ''</script>'') s"
    "\<not> contains_match ic (block_v0 ''<style'' ''</style>'') s"
  unfolding contains_match_def
  by (rule tag_free_no_shaped_match[OF _ assms], erule block_shapes)+

lemma sanitize_tag_free: "sanitize x = Inr y \<Longrightarrow> tag_free y"
  using sanitize_str_tag_free
  by (auto simp: sanitize_def split: if_splits js_value.splits)

lemma sanitizeText_tag_free: "sanitizeText x = Inr y \<Longrightarrow> tag_free y"
  using sanitizeText_str_tag_free
  by (auto simp: sanitizeText_def split: if_splits js_value.splits)

text \<open>
  What holds for every input: the sanitized text holds no tag and no script or style block,
  whatever the case of the letters of the block.
\<close>

lemma sanitize_output_without_tags:
  assumes "sanitize x = Inr y"
  shows "\<not> contains_match False any_tag y" "\<not> contains_match True script_block y"
    "\<not> contains_match True style_block y"
proof -
  note t = sanitize_tag_free[OF assms]
  show "\<not> contains_match False any_tag y"
    unfolding contains_match_def by (rule tag_free_no_match[OF t])
  show "\<not> contains_match True script_block y" by (rule tag_free_no_blocks(1)[OF t])
  show "\<not> contains_match True style_block y" by (rule tag_free_no_blocks(2)[OF t])
qed

lemma sanitizeText_output_without_tags:
  assumes "sanitizeText x = Inr y"
  shows "\<not> contains_match False any_tag y"
    "\<not> contains_match True (block_v0 ''<script'' ''</script>'') y"
    "\<not> contains_match True (block_v0 ''<style'' ''</style>'') y"
proof -
  note t = sanitizeText_tag_free[OF assms]
  show "\<not> contains_match False any_tag y"
    unfolding contains_match_def by (rule tag_free_no_match[OF t])
  show "\<not> contains_match True (block_v0 ''<script'' ''</script>'') y"
    by (rule tag_free_no_blocks(3)[OF t])
  show "\<not> contains_match True (block_v0 ''<style'' ''</style>'') y"
    by (rule tag_free_no_blocks(4)[OF t])
qed

text \<open>
  A second pass. Replacing leaves a text in which the expression matches nowhere as it is,
  and shortens a text in which an expression that has to read a character matches. So a
  second pass returns the result of the first exactly when neither \<^verbatim>\<open>/javascript:/gi\<close> nor
  \<^verbatim>\<open>/on\w+\s*=/gi\<close> matches in it.
\<close>

lemma replace_from_no_match:
  "\<not> matches_in ic r pr s \<Longrightarrow> replace_from ic r pr s = s"
  by (induction s arbitrary: pr) (simp_all del: rx_match.simps)

lemma replace_all_no_match: "\<not> contains_match ic r s \<Longrightarrow> replace_all ic r s = s"
  unfolding contains_match_def replace_all_def by (rule replace_from_no_match)

lemma length_replace_from: "length (replace_from ic r pr s) \<le> length s"
proof (induction ic r pr s rule: replace_from.induct)
  case (1 ic r pr)
  then show ?case by simp
next
  case (2 ic r pr x xs)
  show ?case
  proof (cases "rx_match ic r pr (x # xs)")
    case Nil
    then show ?thesis using 2(1) by simp
  next
    case (Cons q alternatives)
    obtain pr' s' where q: "q = (pr', s')" by (cases q)
    show ?thesis
    proof (cases "length s' < length (x # xs)")
      case True
      have "length (replace_from ic r pr' s') \<le> length s'"
        using 2(2)[OF Cons[unfolded q] refl True] by simp
      then show ?thesis using Cons q True by simp
    next
      case False
      have "length (replace_from ic r (Some x) xs) \<le> length xs"
        using 2(3)[OF Cons[unfolded q] refl False] by simp
      then show ?thesis using Cons q False by simp
    qed
  qed
qed

lemma length_replace_all: "length (replace_all ic r s) \<le> length s"
  unfolding replace_all_def by (rule length_replace_from)

lemma length_trim: "length (trim s) \<le> length s"
proof -
  have "length (trim s) = length (dropWhile is_space (rev (dropWhile is_space s)))"
    by (simp add: trim_def)
  also have "\<dots> \<le> length (rev (dropWhile is_space s))" by (rule length_dropWhile_le)
  also have "\<dots> = length (dropWhile is_space s)" by simp
  also have "\<dots> \<le> length s" by (rule length_dropWhile_le)
  finally show ?thesis .
qed

lemma must_read_consumes:
  "must_read c r \<Longrightarrow> (q1, q2) \<in> set (rx_match ic r pr s) \<Longrightarrow> length q2 < length s"
proof (induction r arbitrary: pr s q1 q2)
  case (Chr d)
  then show ?case by (auto split: list.splits if_splits)
next
  case (Seq a b)
  from Seq.prems(2) obtain m1 m2
    where m: "(m1, m2) \<in> set (rx_match ic a pr s)" and n: "(q1, q2) \<in> set (rx_match ic b m1 m2)"
    by (auto simp: seq_unfold)
  have le1: "length m2 \<le> length s" using rx_match_suffix[OF m] by (auto simp: suffix_def)
  have le2: "length q2 \<le> length m2" using rx_match_suffix[OF n] by (auto simp: suffix_def)
  show ?case
  proof (cases "must_read c a")
    case True
    from Seq.IH(1)[OF True m] show ?thesis using le2 by simp
  next
    case False
    then have "must_read c b" using Seq.prems(1) by simp
    from Seq.IH(2)[OF this n] show ?thesis using le1 by simp
  qed
qed (simp_all del: rx_match.simps)

lemma replace_from_match_shrinks:
  assumes "must_read c r"
  shows "matches_in ic r pr s \<Longrightarrow> length (replace_from ic r pr s) < length s"
proof (induction s arbitrary: pr)
  case Nil
  then obtain q where "q \<in> set (rx_match ic r pr [])" by (cases "rx_match ic r pr []") auto
  then show ?case using must_read_consumes[OF assms, of "fst q" "snd q" ic pr "[]"] by simp
next
  case (Cons x xs)
  show ?case
  proof (cases "rx_match ic r pr (x # xs)")
    case Nil
    then have "matches_in ic r (Some x) xs" using Cons.prems by simp
    from Cons.IH[OF this] show ?thesis using Nil by simp
  next
    case (Cons q alternatives)
    obtain pr' s' where q: "q = (pr', s')" by (cases q)
    have "(pr', s') \<in> set (rx_match ic r pr (x # xs))" using Cons q by simp
    from must_read_consumes[OF assms this] have lt: "length s' < length (x # xs)" .
    have "length (replace_from ic r pr' s') \<le> length s'" by (rule length_replace_from)
    then show ?thesis using Cons q lt by simp
  qed
qed

lemma replace_all_match_shrinks:
  "must_read c r \<Longrightarrow> contains_match ic r s \<Longrightarrow> length (replace_all ic r s) < length s"
  unfolding contains_match_def replace_all_def by (rule replace_from_match_shrinks)

text \<open>On a trimmed text without tags, as the result of a first pass is.\<close>

lemma sanitize_str_fixed_iff:
  assumes t: "tag_free y" and tr: "trim y = y"
  shows "sanitize_str y = y \<longleftrightarrow>
         \<not> contains_match True script_uri y \<and> \<not> contains_match True handler_attr y"
proof -
  have a: "replace_all True script_block y = y"
    by (rule replace_all_no_match[OF tag_free_no_blocks(1)[OF t]])
  have b: "replace_all True style_block y = y"
    by (rule replace_all_no_match[OF tag_free_no_blocks(2)[OF t]])
  have c: "replace_all False any_tag y = y"
    by (rule replace_all_no_match) (simp add: contains_match_def tag_free_no_match[OF t])
  have s: "sanitize_str y = trim (replace_all True handler_attr (replace_all True script_uri y))"
    unfolding sanitize_str_def by (simp only: a b c)
  show ?thesis
  proof (cases "contains_match True script_uri y")
    case True
    have "length (sanitize_str y) \<le> length (replace_all True script_uri y)"
      unfolding s using length_trim length_replace_all le_trans by blast
    also have "\<dots> < length y" by (rule replace_all_match_shrinks[OF must_read_table(4) True])
    finally show ?thesis using True by auto
  next
    case False
    note u = replace_all_no_match[OF False]
    show ?thesis
    proof (cases "contains_match True handler_attr y")
      case True
      have "length (sanitize_str y) \<le> length (replace_all True handler_attr y)"
        unfolding s u by (rule length_trim)
      also have "\<dots> < length y" by (rule replace_all_match_shrinks[OF must_read_table(5) True])
      finally show ?thesis using True by auto
    next
      case h: False
      show ?thesis unfolding s u replace_all_no_match[OF h] using False h tr by simp
    qed
  qed
qed

lemma sanitizeText_str_fixed_iff:
  assumes t: "tag_free y" and tr: "trim y = y"
  shows "sanitizeText_str y = y \<longleftrightarrow>
         \<not> contains_match True script_uri y \<and> \<not> contains_match True handler_attr y"
proof -
  have a: "replace_all True (block_v0 ''<script'' ''</script>'') y = y"
    by (rule replace_all_no_match[OF tag_free_no_blocks(3)[OF t]])
  have b: "replace_all True (block_v0 ''<style'' ''</style>'') y = y"
    by (rule replace_all_no_match[OF tag_free_no_blocks(4)[OF t]])
  have c: "replace_all False any_tag y = y"
    by (rule replace_all_no_match) (simp add: contains_match_def tag_free_no_match[OF t])
  have s: "sanitizeText_str y = trim (replace_all True handler_attr (replace_all True script_uri y))"
    unfolding sanitizeText_str_def by (simp only: a b c)
  show ?thesis
  proof (cases "contains_match True script_uri y")
    case True
    have "length (sanitizeText_str y) \<le> length (replace_all True script_uri y)"
      unfolding s using length_trim length_replace_all le_trans by blast
    also have "\<dots> < length y" by (rule replace_all_match_shrinks[OF must_read_table(4) True])
    finally show ?thesis using True by auto
  next
    case False
    note u = replace_all_no_match[OF False]
    show ?thesis
    proof (cases "contains_match True handler_attr y")
      case True
      have "length (sanitizeText_str y) \<le> length (replace_all True handler_attr y)"
        unfolding s u by (rule length_trim)
      also have "\<dots> < length y" by (rule replace_all_match_shrinks[OF must_read_table(5) True])
      finally show ?thesis using True by auto
    next
      case h: False
      show ?thesis unfolding s u replace_all_no_match[OF h] using False h tr by simp
    qed
  qed
qed

lemma sanitize_str_idem_iff:
  "sanitize_str (sanitize_str x) = sanitize_str x \<longleftrightarrow>
   \<not> contains_match True script_uri (sanitize_str x)
   \<and> \<not> contains_match True handler_attr (sanitize_str x)"
  by (rule sanitize_str_fixed_iff[OF sanitize_str_tag_free sanitize_str_trimmed])

lemma sanitizeText_str_idem_iff:
  "sanitizeText_str (sanitizeText_str x) = sanitizeText_str x \<longleftrightarrow>
   \<not> contains_match True script_uri (sanitizeText_str x)
   \<and> \<not> contains_match True handler_attr (sanitizeText_str x)"
  by (rule sanitizeText_str_fixed_iff[OF sanitizeText_str_tag_free sanitizeText_str_trimmed])

lemma no_match_in_empty:
  "\<not> contains_match True script_uri []" "\<not> contains_match True handler_attr []"
  by (simp_all add: contains_match_def script_uri_def handler_attr_def)

lemma sanitize_idem_iff:
  assumes "sanitize x = Inr y"
  shows "sanitize (JString y) = Inr y \<longleftrightarrow>
         \<not> contains_match True script_uri y \<and> \<not> contains_match True handler_attr y"
proof (cases "y = []")
  case True
  then show ?thesis using no_match_in_empty by (simp add: sanitize_def falsy_def)
next
  case False
  then obtain s where y: "y = sanitize_str s"
    using assms by (auto simp: sanitize_def falsy_def split: if_splits js_value.splits)
  show ?thesis using False sanitize_str_idem_iff[of s]
    unfolding y by (simp add: sanitize_def falsy_def)
qed

lemma sanitizeText_idem_iff:
  assumes "sanitizeText x = Inr y"
  shows "sanitizeText (JString y) = Inr y \<longleftrightarrow>
         \<not> contains_match True script_uri y \<and> \<not> contains_match True handler_attr y"
proof (cases "y = []")
  case True
  then show ?thesis using no_match_in_empty by (simp add: sanitizeText_def falsy_def)
next
  case False
  then obtain s where y: "y = sanitizeText_str s"
    using assms by (auto simp: sanitizeText_def falsy_def split: if_splits js_value.splits)
  show ?thesis using False sanitizeText_str_idem_iff[of s]
    unfolding y by (simp add: sanitizeText_def falsy_def)
qed

text \<open>Each pass at work, on letters of either case, and two texts that no pass changes.\<close>

lemma sanitize_passes:
  "sanitize (JString ''<SCRIPT a>x</Script>hi'') = Inr ''hi''"
  "sanitize (JString ''<Style>p</STYLE>hi'') = Inr ''hi''"
  "sanitize (JString ''a <b>c</b> '') = Inr ''a c''"
  "sanitize (JString ''JavaScript:x'') = Inr ''x''"
  "sanitize (JString ''ONload =x'') = Inr ''x''"
  "sanitize (JString ''a: x = 1'') = Inr ''a: x = 1''"
  "sanitize (JString ''a < b'') = Inr ''a < b''"
  by (simp_all add: sanitize_eval)

lemma sanitizeText_passes:
  "sanitizeText (JString ''<SCRIPT a>x</Script>hi'') = Inr ''hi''"
  "sanitizeText (JString ''<Style>p</STYLE>hi'') = Inr ''hi''"
  "sanitizeText (JString ''a <b>c</b> '') = Inr ''a c''"
  "sanitizeText (JString ''JavaScript:x'') = Inr ''x''"
  "sanitizeText (JString ''ONload =x'') = Inr ''x''"
  "sanitizeText (JString ''a: x = 1'') = Inr ''a: x = 1''"
  "sanitizeText (JString ''a < b'') = Inr ''a < b''"
  by (simp_all add: sanitize_eval)

text \<open>The joined fragments: the results of a first and of a second pass, and the expressions
  on the result of the first.\<close>

lemma sanitize_handler_nested:
  "sanitize (JString ''oonclick=nclick='') = Inr ''onclick=''"
  "sanitize (JString ''onclick='') = Inr []"
  "sanitizeText (JString ''oonclick=nclick='') = Inr ''onclick=''"
  "sanitizeText (JString ''onclick='') = Inr []"
  by (simp_all add: sanitize_eval)

lemma fragment_still_matches:
  "contains_match True script_uri ''javascript:''"
  "contains_match True handler_attr ''onclick=''"
  by (simp_all add: contains_match_def script_uri_def handler_attr_def Plus_def same_char_def
      ascii_upper_def is_word_def is_space_def)

text \<open>
  Claim C3. The example of the claim holds: \<^verbatim>\<open>sanitize("<script>x</script>hello")\<close> is
  \<^verbatim>\<open>"hello"\<close>. The claim itself fails, by a defect of the code. Each expression is applied in
  one pass from left to right and the chain is run once, so removing a match can join its
  neighbours into a new match. From \<^verbatim>\<open>javajavascript:script:\<close> the replacement commented
  \<^emph>\<open>Remove javascript: URLs\<close> removes the inner occurrence and returns \<^verbatim>\<open>javascript:\<close>: the
  fragment it is there to remove is in the result, where the expression matches it. A second
  call returns the empty string, so the sanitizer is not idempotent. The replacement
  commented \<^emph>\<open>Remove event handlers\<close> does the same at \<^verbatim>\<open>oonclick=nclick=\<close>. Both variants.
\<close>

theorem sanitize_leaves_joined_fragment:
  "sanitize (JString ''<script>x</script>hello'') = Inr ''hello''
   \<and> sanitize (JString ''javajavascript:script:'') = Inr ''javascript:''
   \<and> contains_match True script_uri ''javascript:''
   \<and> sanitize (JString ''javascript:'') = Inr []
   \<and> sanitize (JString ''oonclick=nclick='') = Inr ''onclick=''
   \<and> contains_match True handler_attr ''onclick=''
   \<and> sanitize (JString ''onclick='') = Inr []
   \<and> sanitizeText (JString ''<script>x</script>hello'') = Inr ''hello''
   \<and> sanitizeText (JString ''javajavascript:script:'') = Inr ''javascript:''
   \<and> sanitizeText (JString ''javascript:'') = Inr []
   \<and> sanitizeText (JString ''oonclick=nclick='') = Inr ''onclick=''
   \<and> sanitizeText (JString ''onclick='') = Inr []"
  using sanitize_example sanitizeText_example sanitize_nested sanitizeText_nested
    sanitize_handler_nested fragment_still_matches
  by blast

text \<open>
  Claim C10. For \<^verbatim>\<open>undefined\<close>, \<^verbatim>\<open>null\<close> and the empty string both sanitizers return the
  empty string and raise nothing, and for every string they return a string.
\<close>

theorem sanitize_degenerate_inputs:
  "sanitize JUndefined = Inr [] \<and> sanitize JNull = Inr [] \<and> sanitize (JString []) = Inr []
   \<and> sanitizeText JUndefined = Inr [] \<and> sanitizeText JNull = Inr []
   \<and> sanitizeText (JString []) = Inr []
   \<and> sanitize (JString s) = Inr (if s = [] then [] else sanitize_str s)
   \<and> sanitizeText (JString s) = Inr (if s = [] then [] else sanitizeText_str s)"
  by (simp add: sanitize_def sanitizeText_def falsy_def)

section \<open>Properties of the scraper\<close>

text \<open>Each of the two pushes, in order, a message for every element with text.\<close>

lemma unified_loop_eq:
  "unified_loop els acc =
     acc @ map (\<lambda>el. \<lparr>role = role_of el, content = message_text el\<rparr>)
             (filter (\<lambda>el. message_text el \<noteq> []) els)"
  by (induction els arbitrary: acc) (simp_all add: Let_def)

lemma combined_loop_eq:
  "combined_loop xs acc =
     acc @ map (\<lambda>x. \<lparr>role = snd x, content = message_text (fst x)\<rparr>)
             (filter (\<lambda>x. message_text (fst x) \<noteq> []) xs)"
  by (induction xs acc rule: combined_loop.induct) (simp_all add: Let_def)

lemma selector_role_nonempty: "selector_role el \<noteq> []"
  by (simp add: selector_role_def)

lemma role_of_well_formed: "well_formed_node el \<Longrightarrow> role_of el = selector_role el"
  using selector_role_nonempty[of el]
  by (auto simp: well_formed_node_def role_of_def truthy_def selector_role_def)

lemma well_formed_filters:
  assumes "list_all well_formed_node doc"
  shows "filter (\<lambda>el. message_text el \<noteq> []) doc = doc"
    and "filter matches_assistant doc = filter (\<lambda>el. \<not> matches_user el) doc"
  using assms by (induction doc) (auto simp: well_formed_node_def)

lemma filter_all: "list_all P doc \<Longrightarrow> filter P doc = doc"
  by (induction doc) auto

lemma filter_none: "list_all (\<lambda>el. \<not> P el) doc \<Longrightarrow> filter P doc = []"
  by (induction doc) auto

lemma unified_well_formed:
  assumes "list_all well_formed_node doc"
  shows "unified_loop doc [] = messages_of doc"
proof -
  have "map (\<lambda>el. \<lparr>role = role_of el, content = message_text el\<rparr>) doc = messages_of doc"
    unfolding messages_of_def using assms
    by (induction doc) (simp_all add: role_of_well_formed)
  then show ?thesis
    by (simp add: unified_loop_eq well_formed_filters(1)[OF assms])
qed

text \<open>On a well-formed fixture the sorted combination is the document order.\<close>

lemma combined_as_tags:
  assumes "list_all well_formed_node doc"
  shows "map (\<lambda>el. (el, ''user'')) (filter matches_user doc)
           @ map (\<lambda>el. (el, ''assistant'')) (filter matches_assistant doc)
         = map tag (filter matches_user doc @ filter (\<lambda>el. \<not> matches_user el) doc)"
proof -
  have u: "map (\<lambda>el. (el, ''user'')) (filter matches_user doc) = map tag (filter matches_user doc)"
    by (rule map_cong) (auto simp: tag_def selector_role_def)
  have a: "map (\<lambda>el. (el, ''assistant'')) (filter (\<lambda>el. \<not> matches_user el) doc)
      = map tag (filter (\<lambda>el. \<not> matches_user el) doc)"
    by (rule map_cong) (auto simp: tag_def selector_role_def)
  show ?thesis by (simp add: well_formed_filters(2)[OF assms] u a)
qed

lemma combined_sorted_well_formed:
  assumes wf: "well_formed_fixture doc"
  shows "combined_sorted doc = map tag doc"
proof -
  from wf have nodes: "list_all well_formed_node doc" and st: "sorted_wrt (<) (map pos doc)"
    by (simp_all add: well_formed_fixture_def)
  let ?xs = "map tag (filter matches_user doc @ filter (\<lambda>el. \<not> matches_user el) doc)"
  have "mset (filter matches_user doc @ filter (\<lambda>el. \<not> matches_user el) doc) = mset doc"
    using multiset_partition[of "mset doc" matches_user] by simp
  then have ms: "mset ?xs = mset (map tag doc)"
    by (simp only: mset_map)
  have di: "distinct (map pos doc)" and so: "sorted (map pos doc)"
    using st by (simp_all add: strict_sorted_iff)
  have inj: "inj_on (\<lambda>x. pos (fst x)) (set ?xs)"
  proof (rule inj_onI)
    fix x y
    assume x: "x \<in> set ?xs" and y: "y \<in> set ?xs" and e: "pos (fst x) = pos (fst y)"
    from x obtain a where a: "a \<in> set doc" "x = tag a" by auto
    from y obtain b where b: "b \<in> set doc" "y = tag b" by auto
    have "inj_on pos (set doc)" using di by (simp add: distinct_map)
    then have "a = b" using a b e by (auto simp: tag_def dest: inj_onD)
    then show "x = y" using a b by simp
  qed
  have sorted_keys: "sorted (map (\<lambda>x. pos (fst x)) (map tag doc))"
    using so by (simp add: tag_def comp_def)
  have "sort_key (\<lambda>x. pos (fst x)) ?xs = map tag doc"
    by (rule sort_key_inj_key_eq[OF ms inj sorted_keys])
  then show ?thesis
    unfolding combined_sorted_def Let_def combined_as_tags[OF nodes] .
qed

lemma combined_well_formed:
  assumes wf: "well_formed_fixture doc"
  shows "combined_loop (combined_sorted doc) [] = messages_of doc"
proof -
  from wf have nodes: "list_all well_formed_node doc" by (simp add: well_formed_fixture_def)
  have f: "filter (\<lambda>x. message_text (fst x) \<noteq> []) (map tag doc) = map tag doc"
    using nodes by (induction doc) (auto simp: well_formed_node_def tag_def)
  show ?thesis
    by (simp add: combined_sorted_well_formed[OF wf] combined_loop_eq f messages_of_def tag_def
        comp_def)
qed

lemma scrape_messages_well_formed:
  assumes wf: "well_formed_fixture doc" and al: "selected_alike doc"
  shows "(let allEls = filter matches_all doc;
              messages = (if length allEls > 0 then unified_loop allEls [] else [])
          in if length messages = 0 then combined_loop (combined_sorted doc) [] else messages)
         = messages_of doc"
proof -
  from wf have nodes: "list_all well_formed_node doc" by (simp add: well_formed_fixture_def)
  have len: "length (messages_of doc) = length doc" by (simp add: messages_of_def)
  from al show ?thesis unfolding selected_alike_def
  proof
    assume "list_all matches_all doc"
    then have "filter matches_all doc = doc" by (rule filter_all)
    then show ?thesis
      using len by (simp add: Let_def combined_well_formed[OF wf] unified_well_formed[OF nodes])
  next
    assume "list_all (\<lambda>el. \<not> matches_all el) doc"
    then have "filter matches_all doc = []" by (rule filter_none)
    then show ?thesis by (simp add: Let_def combined_well_formed[OF wf])
  qed
qed

lemma scrapeConversation_well_formed:
  assumes wf: "well_formed_fixture doc" and al: "selected_alike doc" and t: "0 < t"
  shows "scrapeConversation doc (Some t) = drop (length doc - 2 * t) (messages_of doc)"
proof -
  have len: "length (messages_of doc) = length doc" by (simp add: messages_of_def)
  have "scrapeConversation doc (Some t) =
      (let messages' = messages_of doc; limit = t * 2
       in if length messages' > limit then drop (length messages' - limit) messages'
          else messages')"
    using t scrape_messages_well_formed[OF wf al]
    by (simp add: scrapeConversation_def Let_def)
  then show ?thesis using len by (simp add: Let_def mult.commute)
qed

lemma scrapeConversation_v0_well_formed:
  assumes wf: "well_formed_fixture doc" and t: "0 < t"
  shows "scrapeConversation_v0 doc (Some t) = drop (length doc - 2 * t) (messages_of doc)"
proof -
  from wf have nodes: "list_all well_formed_node doc" by (simp add: well_formed_fixture_def)
  have len: "length (messages_of doc) = length doc" by (simp add: messages_of_def)
  have none: "doc = []" if "filter matches_user doc = []" "filter matches_assistant doc = []"
  proof (cases doc)
    case Nil
    then show ?thesis .
  next
    case (Cons el rest)
    then have "matches_user el \<noteq> matches_assistant el"
      using nodes by (simp add: well_formed_node_def)
    then show ?thesis using that Cons by (auto split: if_splits)
  qed
  have m: "(if length (filter matches_user doc) = 0 \<and> length (filter matches_assistant doc) = 0
       then unified_loop (filter matches_all doc) []
       else combined_loop (combined_sorted doc) []) = messages_of doc"
    using none by (auto simp: combined_well_formed[OF wf] messages_of_def)
  show ?thesis
    using t len unfolding scrapeConversation_v0_def Let_def m
    by (simp add: slice_last_def mult.commute)
qed

lemma alternating_tl: "alternating (r # rs) \<Longrightarrow> alternating rs"
  by (cases rs) auto

lemma alternating_drop: "alternating rs \<Longrightarrow> alternating (drop n rs)"
proof (induction n arbitrary: rs)
  case 0
  then show ?case by simp
next
  case (Suc n)
  show ?case
  proof (cases rs)
    case Nil
    then show ?thesis by simp
  next
    case (Cons r rest)
    then have "alternating rest" using Suc.prems alternating_tl by blast
    then show ?thesis using Cons Suc.IH by simp
  qed
qed

text \<open>
  What holds. On a well-formed fixture of \<open>N\<close> message nodes and for a turn limit \<open>t\<close> of at
  least 1, \<^verbatim>\<open>scrapeConversation\<close> returns the last \<open>min N (2 * t)\<close> messages of the document, in
  document order: exactly that many, the older ones dropped, and with alternating roles when
  the roles of the fixture alternate. The earlier variant does so on every such fixture, the
  current variant when its unified selector selects all of the nodes or none. An omitted
  limit is the limit 15.
\<close>

lemma scrapeConversation_recent_tail:
  "(well_formed_fixture doc \<and> selected_alike doc \<and> 0 < t \<longrightarrow>
      scrapeConversation doc (Some t) = drop (length doc - 2 * t) (messages_of doc)
      \<and> length (scrapeConversation doc (Some t)) = min (length doc) (2 * t)
      \<and> (alternating (map role (messages_of doc)) \<longrightarrow>
           alternating (map role (scrapeConversation doc (Some t)))))
   \<and> (well_formed_fixture doc \<and> 0 < t \<longrightarrow>
      scrapeConversation_v0 doc (Some t) = drop (length doc - 2 * t) (messages_of doc)
      \<and> length (scrapeConversation_v0 doc (Some t)) = min (length doc) (2 * t)
      \<and> (alternating (map role (messages_of doc)) \<longrightarrow>
           alternating (map role (scrapeConversation_v0 doc (Some t)))))
   \<and> scrapeConversation doc' None = scrapeConversation doc' (Some 15)
   \<and> scrapeConversation_v0 doc' None = scrapeConversation_v0 doc' (Some 15)"
proof (intro conjI impI)
  assume h: "well_formed_fixture doc \<and> selected_alike doc \<and> 0 < t"
  then have wf: "well_formed_fixture doc" and al: "selected_alike doc" and t: "0 < t"
    by simp_all
  have len: "length (messages_of doc) = length doc" by (simp add: messages_of_def)
  note a = scrapeConversation_well_formed[OF wf al t]
  show "scrapeConversation doc (Some t) = drop (length doc - 2 * t) (messages_of doc)" by (rule a)
  show "length (scrapeConversation doc (Some t)) = min (length doc) (2 * t)"
    unfolding a using len by simp
  assume alt: "alternating (map role (messages_of doc))"
  show "alternating (map role (scrapeConversation doc (Some t)))"
    unfolding a drop_map[symmetric] by (rule alternating_drop[OF alt])
next
  assume h: "well_formed_fixture doc \<and> 0 < t"
  then have wf: "well_formed_fixture doc" and t: "0 < t" by simp_all
  have len: "length (messages_of doc) = length doc" by (simp add: messages_of_def)
  note b = scrapeConversation_v0_well_formed[OF wf t]
  show "scrapeConversation_v0 doc (Some t) = drop (length doc - 2 * t) (messages_of doc)"
    by (rule b)
  show "length (scrapeConversation_v0 doc (Some t)) = min (length doc) (2 * t)"
    unfolding b using len by simp
  assume alt: "alternating (map role (messages_of doc))"
  show "alternating (map role (scrapeConversation_v0 doc (Some t)))"
    unfolding b drop_map[symmetric] by (rule alternating_drop[OF alt])
next
  show "scrapeConversation doc' None = scrapeConversation doc' (Some 15)"
    by (simp add: scrapeConversation_def)
  show "scrapeConversation_v0 doc' None = scrapeConversation_v0 doc' (Some 15)"
    by (simp add: scrapeConversation_v0_def)
qed

text \<open>
  The \<^verbatim>\<open>allMessages\<close> selectors of the ChatGPT and the Claude entry select whatever their
  \<^verbatim>\<open>userMessage\<close> or \<^verbatim>\<open>assistantMessage\<close> selector selects. So on every well-formed page
  of these two platforms the current variant returns the most recent tail.
\<close>

lemma chatgpt_covers:
  "matches_selector (userMessage chatgpt_selectors) el
   \<or> matches_selector (assistantMessage chatgpt_selectors) el
   \<Longrightarrow> matches_selector (allMessages chatgpt_selectors) el"
  by (auto simp: chatgpt_selectors_def matches_selector_def)

lemma claude_covers:
  "matches_selector (userMessage claude_selectors) el
   \<or> matches_selector (assistantMessage claude_selectors) el
   \<Longrightarrow> matches_selector (allMessages claude_selectors) el"
  by (auto simp: claude_selectors_def matches_selector_def)

lemma covering_selected_alike:
  assumes cov: "\<And>el. matches_selector (userMessage sel) el \<or> matches_selector (assistantMessage sel) el
          \<Longrightarrow> matches_selector (allMessages sel) el"
    and wf: "well_formed_fixture (nodes_of sel page)"
  shows "selected_alike (nodes_of sel page)"
proof -
  have "matches_all (node_of sel el)" if "el \<in> set page" for el
  proof -
    have "well_formed_node (node_of sel el)"
      using wf that by (simp add: well_formed_fixture_def nodes_of_def list_all_iff)
    then have "matches_user (node_of sel el) \<noteq> matches_assistant (node_of sel el)"
      by (simp add: well_formed_node_def)
    then have "matches_selector (userMessage sel) el \<or> matches_selector (assistantMessage sel) el"
      by (auto simp: node_of_def)
    from cov[OF this] show ?thesis by (simp add: node_of_def)
  qed
  then show ?thesis by (simp add: selected_alike_def nodes_of_def list_all_iff)
qed

lemma scrapeConversation_covering:
  assumes cov: "\<And>el. matches_selector (userMessage sel) el \<or> matches_selector (assistantMessage sel) el
          \<Longrightarrow> matches_selector (allMessages sel) el"
    and wf: "well_formed_fixture (nodes_of sel page)" and t: "0 < t"
  shows "scrapeConversation (nodes_of sel page) (Some t) =
         drop (length page - 2 * t) (messages_of (nodes_of sel page))"
  using scrapeConversation_well_formed[OF wf covering_selected_alike[OF cov wf] t]
  by (simp add: nodes_of_def)

lemma scrapeConversation_chatgpt_claude:
  assumes "sel = chatgpt_selectors \<or> sel = claude_selectors"
    and wf: "well_formed_fixture (nodes_of sel page)" and t: "0 < t"
  shows "scrapeConversation (nodes_of sel page) (Some t) =
         drop (length page - 2 * t) (messages_of (nodes_of sel page))"
    and "length (scrapeConversation (nodes_of sel page) (Some t)) = min (length page) (2 * t)"
proof -
  have cov: "matches_selector (allMessages sel) el"
    if "matches_selector (userMessage sel) el \<or> matches_selector (assistantMessage sel) el" for el
    using assms(1) that chatgpt_covers claude_covers by blast
  show a: "scrapeConversation (nodes_of sel page) (Some t) =
         drop (length page - 2 * t) (messages_of (nodes_of sel page))"
    by (rule scrapeConversation_covering[OF cov wf t])
  show "length (scrapeConversation (nodes_of sel page) (Some t)) = min (length page) (2 * t)"
    unfolding a by (simp add: messages_of_def nodes_of_def)
qed

text \<open>The ChatGPT page: the two variants at the limits 1 and 15.\<close>

lemma chatgpt_nodes:
  "nodes_of chatgpt_selectors chatgpt_page =
     [\<lparr>role_attr = Some ''user'', matches_all = True, matches_user = True,
        matches_assistant = False, message_text = ''build a todo app'', pos = 100\<rparr>,
      \<lparr>role_attr = Some ''assistant'', matches_all = True, matches_user = False,
        matches_assistant = True, message_text = ''ok, using React'', pos = 180\<rparr>,
      \<lparr>role_attr = Some ''user'', matches_all = True, matches_user = True,
        matches_assistant = False, message_text = ''add a due date'', pos = 260\<rparr>,
      \<lparr>role_attr = Some ''assistant'', matches_all = True, matches_user = False,
        matches_assistant = True, message_text = ''done'', pos = 340\<rparr>]"
  by (simp add: nodes_of_def node_of_def chatgpt_page_def chatgpt_selectors_def
      matches_selector_def)

lemma chatgpt_fixture:
  "well_formed_fixture (nodes_of chatgpt_selectors chatgpt_page)"
  "messages_of (nodes_of chatgpt_selectors chatgpt_page) =
     [\<lparr>role = ''user'', content = ''build a todo app''\<rparr>,
      \<lparr>role = ''assistant'', content = ''ok, using React''\<rparr>,
      \<lparr>role = ''user'', content = ''add a due date''\<rparr>,
      \<lparr>role = ''assistant'', content = ''done''\<rparr>]"
  unfolding chatgpt_nodes
  by (simp_all add: well_formed_fixture_def well_formed_node_def selector_role_def messages_of_def)

lemma chatgpt_run:
  "scrapeConversation (nodes_of chatgpt_selectors chatgpt_page) (Some 1) =
     [\<lparr>role = ''user'', content = ''add a due date''\<rparr>,
      \<lparr>role = ''assistant'', content = ''done''\<rparr>]"
  "scrapeConversation (nodes_of chatgpt_selectors chatgpt_page) (Some 15) =
     messages_of (nodes_of chatgpt_selectors chatgpt_page)"
  "scrapeConversation_v0 (nodes_of chatgpt_selectors chatgpt_page) (Some 1) =
     [\<lparr>role = ''user'', content = ''add a due date''\<rparr>,
      \<lparr>role = ''assistant'', content = ''done''\<rparr>]"
  "scrapeConversation_v0 (nodes_of chatgpt_selectors chatgpt_page) (Some 15) =
     messages_of (nodes_of chatgpt_selectors chatgpt_page)"
proof -
  have n: "length chatgpt_page = 4" by (simp add: chatgpt_page_def)
  note wf = chatgpt_fixture(1)
  show "scrapeConversation (nodes_of chatgpt_selectors chatgpt_page) (Some 1) =
     [\<lparr>role = ''user'', content = ''add a due date''\<rparr>,
      \<lparr>role = ''assistant'', content = ''done''\<rparr>]"
    using scrapeConversation_chatgpt_claude(1)[OF _ wf, of 1] n by (simp add: chatgpt_fixture(2))
  show "scrapeConversation (nodes_of chatgpt_selectors chatgpt_page) (Some 15) =
     messages_of (nodes_of chatgpt_selectors chatgpt_page)"
    using scrapeConversation_chatgpt_claude(1)[OF _ wf, of 15] n by simp
  have m: "length (nodes_of chatgpt_selectors chatgpt_page) = 4" using n by (simp add: nodes_of_def)
  show "scrapeConversation_v0 (nodes_of chatgpt_selectors chatgpt_page) (Some 1) =
     [\<lparr>role = ''user'', content = ''add a due date''\<rparr>,
      \<lparr>role = ''assistant'', content = ''done''\<rparr>]"
    using scrapeConversation_v0_well_formed[OF wf, of 1] m by (simp add: chatgpt_fixture(2))
  show "scrapeConversation_v0 (nodes_of chatgpt_selectors chatgpt_page) (Some 15) =
     messages_of (nodes_of chatgpt_selectors chatgpt_page)"
    using scrapeConversation_v0_well_formed[OF wf, of 15] m by simp
qed

text \<open>
  The limit 0, which no call site passes: the current variant takes it for missing and uses
  15, the earlier one slices from \<^verbatim>\<open>-0\<close>; both return all the messages, not none.
\<close>

lemma zero_limit_run:
  "scrapeConversation (nodes_of chatgpt_selectors chatgpt_page) (Some 0) =
     messages_of (nodes_of chatgpt_selectors chatgpt_page)"
  "scrapeConversation_v0 (nodes_of chatgpt_selectors chatgpt_page) (Some 0) =
     messages_of (nodes_of chatgpt_selectors chatgpt_page)"
proof -
  have a: "scrapeConversation doc (Some 0) = scrapeConversation doc (Some 15)" for doc
    by (simp add: scrapeConversation_def)
  show "scrapeConversation (nodes_of chatgpt_selectors chatgpt_page) (Some 0) =
     messages_of (nodes_of chatgpt_selectors chatgpt_page)"
    unfolding a by (rule chatgpt_run(2))
  show "scrapeConversation_v0 (nodes_of chatgpt_selectors chatgpt_page) (Some 0) =
     messages_of (nodes_of chatgpt_selectors chatgpt_page)"
    unfolding chatgpt_fixture(2) unfolding chatgpt_nodes
    by (simp add: scrapeConversation_v0_def combined_sorted_def slice_last_def Let_def)
qed

text \<open>The Gemini entry of the earlier variant on its page: the position path returns both
  messages.\<close>

lemma gemini_v0_run:
  "well_formed_fixture (nodes_of gemini_selectors_v0 gemini_page_v0)"
  "scrapeConversation_v0 (nodes_of gemini_selectors_v0 gemini_page_v0) (Some 15) =
     [\<lparr>role = ''user'', content = ''build a todo app''\<rparr>,
      \<lparr>role = ''assistant'', content = ''ok, using React''\<rparr>]"
  by (simp_all add: nodes_of_def node_of_def gemini_page_v0_def gemini_selectors_v0_def
      matches_selector_def well_formed_fixture_def well_formed_node_def selector_role_def
      scrapeConversation_v0_def combined_sorted_def slice_last_def Let_def)

text \<open>
  The \<^verbatim>\<open>allMessages\<close> selector of the Gemini entry of the current variant lists four of the
  six alternatives of its \<^verbatim>\<open>userMessage\<close> and \<^verbatim>\<open>assistantMessage\<close> selectors: an element
  selected by its class \<^verbatim>\<open>response-content\<close> or \<^verbatim>\<open>user-query\<close> alone is a message of the
  platform that \<^verbatim>\<open>allMessages\<close> misses.
\<close>

lemma gemini_not_covered:
  "matches_selector (assistantMessage gemini_selectors)
     \<lparr>tag_name = ''div'', class_list = [''response-content''], attributes = [],
      inner_text = txt, top_of = y\<rparr>"
  "\<not> matches_selector (allMessages gemini_selectors)
     \<lparr>tag_name = ''div'', class_list = [''response-content''], attributes = [],
      inner_text = txt, top_of = y\<rparr>"
  "matches_selector (userMessage gemini_selectors)
     \<lparr>tag_name = ''div'', class_list = [''user-query''], attributes = [],
      inner_text = txt, top_of = y\<rparr>"
  "\<not> matches_selector (allMessages gemini_selectors)
     \<lparr>tag_name = ''div'', class_list = [''user-query''], attributes = [],
      inner_text = txt, top_of = y\<rparr>"
  by (simp_all add: gemini_selectors_def matches_selector_def)

lemma gemini_nodes:
  "nodes_of gemini_selectors gemini_page =
     [\<lparr>role_attr = None, matches_all = True, matches_user = True, matches_assistant = False,
        message_text = ''build a todo app'', pos = 100\<rparr>,
      \<lparr>role_attr = None, matches_all = False, matches_user = False, matches_assistant = True,
        message_text = ''ok, using React'', pos = 180\<rparr>]"
  by (simp add: nodes_of_def node_of_def gemini_page_def gemini_selectors_def matches_selector_def)

lemma gemini_run:
  "well_formed_fixture (nodes_of gemini_selectors gemini_page)"
  "messages_of (nodes_of gemini_selectors gemini_page) =
     [\<lparr>role = ''user'', content = ''build a todo app''\<rparr>,
      \<lparr>role = ''assistant'', content = ''ok, using React''\<rparr>]"
  "scrapeConversation (nodes_of gemini_selectors gemini_page) (Some 15) =
     [\<lparr>role = ''user'', content = ''build a todo app''\<rparr>]"
  "scrapeConversation (nodes_of gemini_selectors gemini_page) None =
     [\<lparr>role = ''user'', content = ''build a todo app''\<rparr>]"
  "combined_loop (combined_sorted (nodes_of gemini_selectors gemini_page)) [] =
     [\<lparr>role = ''user'', content = ''build a todo app''\<rparr>,
      \<lparr>role = ''assistant'', content = ''ok, using React''\<rparr>]"
  unfolding gemini_nodes
  by (simp_all add: well_formed_fixture_def well_formed_node_def selector_role_def messages_of_def
      scrapeConversation_def role_of_def truthy_def combined_sorted_def Let_def)

text \<open>
  Claim C4. The claim fails for the Gemini adapter of the current content script, by a defect
  of its configuration: \<^verbatim>\<open>allMessages\<close> omits \<^verbatim>\<open>.user-query\<close> and \<^verbatim>\<open>.response-content\<close>, which
  \<^verbatim>\<open>userMessage\<close> and \<^verbatim>\<open>assistantMessage\<close> list. On the Gemini page of one turn the two nodes
  are well formed and their roles alternate. \<^verbatim>\<open>scrapeConversation(15)\<close>, the call of the call
  sites, finds one element under \<^verbatim>\<open>allMessages\<close>, takes the unified path and returns the user
  message alone: one message, where \<open>min N (2 * turnLimit)\<close> is 2. The fallback path of the
  same function, which is not taken, yields both messages.
\<close>

theorem scrapeConversation_gemini_drops_reply:
  "well_formed_fixture (nodes_of gemini_selectors gemini_page)
   \<and> length gemini_page = 2
   \<and> messages_of (nodes_of gemini_selectors gemini_page) =
       [\<lparr>role = ''user'', content = ''build a todo app''\<rparr>,
        \<lparr>role = ''assistant'', content = ''ok, using React''\<rparr>]
   \<and> alternating (map role (messages_of (nodes_of gemini_selectors gemini_page)))
   \<and> scrapeConversation (nodes_of gemini_selectors gemini_page) (Some 15) =
       [\<lparr>role = ''user'', content = ''build a todo app''\<rparr>]
   \<and> length (scrapeConversation (nodes_of gemini_selectors gemini_page) (Some 15)) = 1
   \<and> min (length gemini_page) (15 * 2) = 2
   \<and> combined_loop (combined_sorted (nodes_of gemini_selectors gemini_page)) [] =
       [\<lparr>role = ''user'', content = ''build a todo app''\<rparr>,
        \<lparr>role = ''assistant'', content = ''ok, using React''\<rparr>]"
  by (simp add: gemini_run) (simp add: gemini_page_def)

end
